theory Spec2Isabelle
  imports Main "HOL-Library.Multiset"
begin

section \<open>Strings and POSIX paths\<close>

text \<open>
  The downloader is a single Python module, \<^verbatim>\<open>inidirici.py\<close>. Its own functions are
  embedded below under their source names. The library functions it calls on strings and
  paths (\<^verbatim>\<open>re.sub\<close> with a character class, \<^verbatim>\<open>str.lstrip\<close>, \<^verbatim>\<open>str.endswith\<close>,
  \<^verbatim>\<open>str.lower\<close>, and \<^verbatim>\<open>os.path\<close> in its POSIX flavour) are written out as list
  functions over \<^typ>\<open>string\<close>. Characters are bytes: \<^verbatim>\<open>lower\<close> is modelled on ASCII.
\<close>

definition sep :: char where
  "sep = CHR ''/''"

definition backslash :: char where
  "backslash = CHR 0x5C"

definition dquote :: char where
  "dquote = CHR 0x22"

text \<open>The character class of the regular expression in \<^verbatim>\<open>sanitize_filename\<close>.\<close>

definition invalid_chars :: "char list" where
  "invalid_chars =
     [backslash, CHR ''/'', CHR ''*'', CHR ''?'', CHR '':'', dquote, CHR ''<'', CHR ''>'', CHR ''|'']"

text \<open>\<^verbatim>\<open>return re.sub(r'[\\/*?:"<>|]', "_", filename)\<close>\<close>

definition sanitize_filename :: "string \<Rightarrow> string" where
  "sanitize_filename filename = map (\<lambda>c. if c \<in> set invalid_chars then CHR ''_'' else c) filename"

definition lstrip :: "char \<Rightarrow> string \<Rightarrow> string" where
  "lstrip c s = dropWhile (\<lambda>x. x = c) s"

definition rstrip :: "char \<Rightarrow> string \<Rightarrow> string" where
  "rstrip c s = rev (dropWhile (\<lambda>x. x = c) (rev s))"

definition endswith :: "string \<Rightarrow> char \<Rightarrow> bool" where
  "endswith s c \<longleftrightarrow> s \<noteq> [] \<and> last s = c"

definition startswith :: "string \<Rightarrow> char \<Rightarrow> bool" where
  "startswith s c \<longleftrightarrow> s \<noteq> [] \<and> hd s = c"

text \<open>\<^verbatim>\<open>s.rfind(c)\<close>: the index of the last occurrence of \<open>c\<close>, or \<open>-1\<close>.\<close>

definition rfind :: "string \<Rightarrow> char \<Rightarrow> int" where
  "rfind s c =
     (if c \<in> set s then int (length s) - 1 - int (length (takeWhile (\<lambda>x. x \<noteq> c) (rev s)))
      else - 1)"

definition upper_chars :: string where
  "upper_chars = ''ABCDEFGHIJKLMNOPQRSTUVWXYZ''"

definition lower_chars :: string where
  "lower_chars = ''abcdefghijklmnopqrstuvwxyz''"

definition lower_char :: "char \<Rightarrow> char" where
  "lower_char c = (case map_of (zip upper_chars lower_chars) c of Some l \<Rightarrow> l | None \<Rightarrow> c)"

definition lower :: "string \<Rightarrow> string" where
  "lower s = map lower_char s"

text \<open>
  \<^verbatim>\<open>os.path.splitext\<close>: the extension starts at the last dot of the last path component,
  unless that component consists of leading dots only up to there.
\<close>

definition splitext :: "string \<Rightarrow> string \<times> string" where
  "splitext p =
     (let sepIndex = rfind p sep;
          dotIndex = rfind p (CHR ''.'')
      in if dotIndex > sepIndex \<and>
            list_ex (\<lambda>k. p ! k \<noteq> CHR ''.'') [nat (sepIndex + 1) ..< nat dotIndex]
         then (take (nat dotIndex) p, drop (nat dotIndex) p)
         else (p, []))"

text \<open>\<^verbatim>\<open>os.path.join(a, b)\<close> with two arguments.\<close>

definition os_path_join :: "string \<Rightarrow> string \<Rightarrow> string" where
  "os_path_join a b =
     (if startswith b sep then b
      else if a = [] \<or> endswith a sep then a @ b
      else a @ [sep] @ b)"

text \<open>\<^verbatim>\<open>os.path.dirname\<close>.\<close>

definition dirname :: "string \<Rightarrow> string" where
  "dirname p =
     (let i = nat (rfind p sep + 1);
          head = take i p
      in if head \<noteq> [] \<and> head \<noteq> replicate (length head) sep then rstrip sep head else head)"

text \<open>\<^verbatim>\<open>s.split('/')\<close> and \<^verbatim>\<open>'/'.join(xs)\<close>.\<close>

fun split_sep :: "string \<Rightarrow> string list" where
  "split_sep [] = [[]]"
| "split_sep (c # cs) =
     (if c = sep then [] # split_sep cs
      else (case split_sep cs of [] \<Rightarrow> [[c]] | x # xs \<Rightarrow> (c # x) # xs))"

fun join_sep :: "string list \<Rightarrow> string" where
  "join_sep [] = []"
| "join_sep [x] = x"
| "join_sep (x # y # ys) = x @ [sep] @ join_sep (y # ys)"

text \<open>
  \<^verbatim>\<open>os.path.normpath\<close>: the loop over the components keeps \<open>new_comps\<close> as a stack,
  here with its top at the head of the list.
\<close>

fun norm_comps :: "bool \<Rightarrow> string list \<Rightarrow> string list \<Rightarrow> string list" where
  "norm_comps initial_slashes new_comps [] = rev new_comps"
| "norm_comps initial_slashes new_comps (part # comps) =
     (if part = [] \<or> part = ''.'' then norm_comps initial_slashes new_comps comps
      else if part \<noteq> ''..'' \<or> (\<not> initial_slashes \<and> new_comps = []) \<or>
              (new_comps \<noteq> [] \<and> hd new_comps = ''..'')
        then norm_comps initial_slashes (part # new_comps) comps
      else if new_comps \<noteq> [] then norm_comps initial_slashes (tl new_comps) comps
      else norm_comps initial_slashes new_comps comps)"

definition normpath :: "string \<Rightarrow> string" where
  "normpath p =
     (if p = [] then ''.''
      else
        let initial_slashes =
              (if startswith p sep
               then (if take 2 p = [sep, sep] \<and> take 3 p \<noteq> [sep, sep, sep] then 2 else 1)
               else (0::nat));
            comps = norm_comps (initial_slashes \<noteq> 0) [] (split_sep p);
            q = replicate initial_slashes sep @ join_sep comps
        in if q = [] then ''.'' else q)"

text \<open>\<^verbatim>\<open>os.path.abspath\<close>, with the working directory \<open>cwd\<close> of the process as a parameter.\<close>

definition abspath :: "string \<Rightarrow> string \<Rightarrow> string" where
  "abspath cwd p = normpath (if startswith p sep then p else os_path_join cwd p)"

fun commonprefix :: "'a list \<Rightarrow> 'a list \<Rightarrow> 'a list" where
  "commonprefix (x # xs) (y # ys) = (if x = y then x # commonprefix xs ys else [])"
| "commonprefix _ _ = []"

text \<open>
  \<^verbatim>\<open>os.path.relpath(path, start)\<close> for a non-empty \<open>path\<close> (the library raises
  \<^verbatim>\<open>ValueError\<close> on the empty one; the crawler only calls it on a path that holds an
  extension).
\<close>

definition path_list :: "string \<Rightarrow> string \<Rightarrow> string list" where
  "path_list cwd p =
     (let tail = lstrip sep (abspath cwd p) in if tail = [] then [] else split_sep tail)"

definition relpath :: "string \<Rightarrow> string \<Rightarrow> string \<Rightarrow> string" where
  "relpath cwd p start =
     (let start_list = path_list cwd start;
          p_list = path_list cwd p;
          i = length (commonprefix start_list p_list);
          rel_list = replicate (length start_list - i) ''..'' @ drop i p_list
      in if rel_list = [] then ''.'' else join_sep rel_list)"

text \<open>
  Where a relative link found in the file at \<open>page_path\<close> leads: the link joined to the
  directory of the file, normalised.
\<close>

definition resolve_link :: "string \<Rightarrow> string \<Rightarrow> string" where
  "resolve_link page_path link = normpath (os_path_join (dirname page_path) link)"

section \<open>The environment of a run\<close>

text \<open>
  The HTTP transport, the HTML parser and \<^verbatim>\<open>urllib.parse\<close> are outside the module. They
  enter the model as an environment: \<open>urlparse\<close> and \<open>urljoin\<close> are the library
  functions, \<open>get_page\<close> is the module's \<^verbatim>\<open>get_page\<close> followed by the
  \<^verbatim>\<open>BeautifulSoup\<close> parse of the text it returns (\<open>None\<close> when the request raised
  \<^verbatim>\<open>RequestException\<close> and \<^verbatim>\<open>get_page\<close> returned \<^verbatim>\<open>None\<close>), and \<open>getcwd\<close> is the
  working directory that \<^verbatim>\<open>os.path.relpath\<close> consults. The library functions are taken
  to return a value, and file-system calls are recorded and taken to succeed.
\<close>

record parse_result =
  url_scheme :: string
  url_netloc :: string
  url_path :: string
  url_params :: string
  url_query :: string
  url_fragment :: string

text \<open>
  A parsed tag: its name, its string-valued attributes as a dictionary in insertion order,
  and its \<^verbatim>\<open>rel\<close> attribute, which the parser hands out as a list of tokens on
  \<^verbatim>\<open>a\<close> and \<^verbatim>\<open>link\<close> tags and as the raw string elsewhere.
\<close>

datatype rel_value = Tokens "string list" | Raw string

record element =
  el_tag :: string
  el_attrs :: "(string \<times> string) list"
  el_rel :: "rel_value option"

type_synonym document = "element list"

record env =
  urlparse :: "string \<Rightarrow> parse_result"
  urljoin :: "string \<Rightarrow> string \<Rightarrow> string"
  get_page :: "string \<Rightarrow> document option"
  getcwd :: string

text \<open>The arguments of \<^verbatim>\<open>parse_and_download\<close> that stay the same through a run.\<close>

record config =
  save_dir :: string
  max_depth :: int
  include_types :: "string list"
  follow_redirects :: bool

datatype event =
    VisitedAdd string
  | GetPage string
  | LogError string
  | LogWarning string
  | LogInfo string
  | MakeDirs string
  | QueuePut string string
  | WriteFile string document
  | Sleep

text \<open>
  The state of the traversal: the \<^verbatim>\<open>visited\<close> set, and the effects so far, oldest
  first. \<open>QueuePut\<close> is \<^verbatim>\<open>download_queue.put\<close>.
\<close>

record crawl_state =
  visited :: "string set"
  trace :: "event list"

definition emit :: "event list \<Rightarrow> crawl_state \<Rightarrow> crawl_state" where
  "emit es st = st\<lparr>trace := trace st @ es\<rparr>"

definition RESOURCE_TYPES :: "string list" where
  "RESOURCE_TYPES =
     [''.css'', ''.js'', ''.png'', ''.jpg'', ''.jpeg'', ''.gif'', ''.svg'', ''.woff'', ''.woff2'',
      ''.ttf'', ''.eot'', ''.otf'', ''.ico'', ''.mp4'', ''.webm'', ''.ogg'', ''.mp3'', ''.wav'', ''.pdf'']"

definition tags :: "(string \<times> string) list" where
  "tags =
     [(''img'', ''src''), (''script'', ''src''), (''link'', ''href''), (''a'', ''href''),
      (''video'', ''src''), (''audio'', ''src''), (''source'', ''src'')]"

definition is_valid_url :: "env \<Rightarrow> string \<Rightarrow> bool" where
  "is_valid_url E url =
     (let parsed = urlparse E url in url_netloc parsed \<noteq> [] \<and> url_scheme parsed \<noteq> [])"

text \<open>\<^verbatim>\<open>x in s\<close> on strings is the substring test.\<close>

fun is_substring :: "string \<Rightarrow> string \<Rightarrow> bool" where
  "is_substring x [] = (x = [])"
| "is_substring x (c # cs) = (take (length x) (c # cs) = x \<or> is_substring x cs)"

text \<open>\<^verbatim>\<open>'nofollow' in resource.attrs.get('rel', [])\<close>\<close>

fun nofollow_in :: "rel_value option \<Rightarrow> bool" where
  "nofollow_in None = False"
| "nofollow_in (Some (Tokens ts)) = (''nofollow'' \<in> set ts)"
| "nofollow_in (Some (Raw s)) = is_substring ''nofollow'' s"

text \<open>\<^verbatim>\<open>soup.find_all(tag)\<close>: the positions, in document order, of the tags of that name.\<close>

definition find_all :: "string \<Rightarrow> document \<Rightarrow> nat list" where
  "find_all tag soup = filter (\<lambda>i. el_tag (soup ! i) = tag) [0 ..< length soup]"

text \<open>\<^verbatim>\<open>d[k] = v\<close> on a dictionary.\<close>

fun dict_set :: "'k \<Rightarrow> 'v \<Rightarrow> ('k \<times> 'v) list \<Rightarrow> ('k \<times> 'v) list" where
  "dict_set k v [] = [(k, v)]"
| "dict_set k v ((k', v') # kvs) = (if k = k' then (k, v) # kvs else (k', v') # dict_set k v kvs)"

definition set_attr :: "string \<Rightarrow> string \<Rightarrow> element \<Rightarrow> element" where
  "set_attr attr v resource = resource\<lparr>el_attrs := dict_set attr v (el_attrs resource)\<rparr>"

text \<open>Lines 106 to 113: the path a page is to be saved under.\<close>

definition index_path :: "string \<Rightarrow> string" where
  "index_path p =
     (if endswith p sep then p @ ''index.html''
      else if snd (splitext p) = [] then p @ ''/index.html''
      else p)"

definition page_save_path :: "string \<Rightarrow> parse_result \<Rightarrow> string" where
  "page_save_path dir parsed_url = os_path_join dir (lstrip sep (index_path (url_path parsed_url)))"

text \<open>Line 141: the path a resource is queued under.\<close>

definition resource_save_path :: "string \<Rightarrow> string \<Rightarrow> string" where
  "resource_save_path dir p = os_path_join dir (sanitize_filename (lstrip sep p))"

text \<open>Lines 147 and 148: the value written into the attribute.\<close>

definition replace_backslash :: "string \<Rightarrow> string" where
  "replace_backslash s = map (\<lambda>c. if c = backslash then sep else c) s"

definition relative_link :: "string \<Rightarrow> string \<Rightarrow> string \<Rightarrow> string" where
  "relative_link cwd resource_path save_path =
     replace_backslash (relpath cwd resource_path (dirname save_path))"

section \<open>The traversal\<close>

text \<open>
  \<^verbatim>\<open>parse_and_download\<close>, with its two nested loops as \<open>for_tags\<close> (over the
  \<^verbatim>\<open>tags\<close> dictionary) and \<open>for_resources\<close> (over the result of \<^verbatim>\<open>find_all\<close>). The
  document is mutated through the tag objects, which are positions here.
\<close>

function
  parse_and_download :: "env \<Rightarrow> config \<Rightarrow> string \<Rightarrow> int \<Rightarrow> crawl_state \<Rightarrow> crawl_state"
and
  for_tags :: "env \<Rightarrow> config \<Rightarrow> string \<Rightarrow> int \<Rightarrow> string \<Rightarrow> (string \<times> string) list \<Rightarrow>
     document \<times> crawl_state \<Rightarrow> document \<times> crawl_state"
and
  for_resources :: "env \<Rightarrow> config \<Rightarrow> string \<Rightarrow> int \<Rightarrow> string \<Rightarrow> string \<Rightarrow> string \<Rightarrow> nat list \<Rightarrow>
     document \<times> crawl_state \<Rightarrow> document \<times> crawl_state"
where
  "parse_and_download E C url current_depth st =
     (if current_depth > max_depth C then st
      else if url \<in> visited st then st
      else
        let st1 = emit [VisitedAdd url, GetPage url] (st\<lparr>visited := insert url (visited st)\<rparr>)
        in case get_page E url of
             None \<Rightarrow> emit [LogError url] st1
           | Some soup \<Rightarrow>
               let save_path = page_save_path (save_dir C) (urlparse E url);
                   st2 = emit [MakeDirs (dirname save_path)] st1;
                   result = for_tags E C url current_depth save_path tags (soup, st2)
               in emit [WriteFile (sanitize_filename save_path) (fst result),
                        LogInfo (sanitize_filename save_path), Sleep] (snd result))"
| "for_tags E C url current_depth save_path [] acc = acc"
| "for_tags E C url current_depth save_path ((tag, attr) # rest) (soup, st) =
     for_tags E C url current_depth save_path rest
       (for_resources E C url current_depth save_path tag attr (find_all tag soup) (soup, st))"
| "for_resources E C url current_depth save_path tag attr [] acc = acc"
| "for_resources E C url current_depth save_path tag attr (i # rest) (soup, st) =
     for_resources E C url current_depth save_path tag attr rest
       (case map_of (el_attrs (soup ! i)) attr of
          None \<Rightarrow> (soup, st)
        | Some src \<Rightarrow>
            if src = [] \<or> nofollow_in (el_rel (soup ! i)) then (soup, st)
            else
              let resource_url = urljoin E url src;
                  resource_parsed_url = urlparse E resource_url;
                  resource_ext = snd (splitext (url_path resource_parsed_url))
              in if include_types C \<noteq> [] \<and> lower resource_ext \<notin> set (include_types C)
                 then (soup, st)
                 else if lower resource_ext \<in> set RESOURCE_TYPES \<or> tag = ''a'' then
                   let resource_path = resource_save_path (save_dir C) (url_path resource_parsed_url);
                       st1 = emit [MakeDirs (dirname resource_path)] st
                   in if is_valid_url E resource_url \<and> resource_url \<notin> visited st1 then
                        if lower resource_ext \<in> set RESOURCE_TYPES then
                          (soup[i := set_attr attr
                                  (relative_link (getcwd E) resource_path save_path) (soup ! i)],
                           emit [QueuePut resource_url resource_path] st1)
                        else if tag = ''a'' \<and> follow_redirects C then
                          (soup, parse_and_download E C resource_url (current_depth + 1) st1)
                        else (soup, st1)
                      else (soup, st1)
                 else (soup, st))"
  by pat_completeness auto
termination
  by (relation "inv_image (less_than <*lex*> less_than <*lex*> less_than)
        (\<lambda>x. case x of
           Inl (E, C, url, d, st) \<Rightarrow> (2 * nat (max_depth C - d + 1), 0, 0)
         | Inr (Inl (E, C, url, d, sp, ts, acc)) \<Rightarrow> (2 * nat (max_depth C - d) + 1, 1, length ts)
         | Inr (Inr (E, C, url, d, sp, tag, attr, is, acc)) \<Rightarrow>
             (2 * nat (max_depth C - d) + 1, 0, length is))")
    auto

section \<open>Reading a record of effects\<close>

text \<open>\<^verbatim>\<open>main\<close> calls the traversal with an empty visited set, before any effect.\<close>

definition start :: crawl_state where
  "start = \<lparr>visited = {}, trace = []\<rparr>"

text \<open>The tasks put on the queue, the pages fetched and the paths written, in order.\<close>

fun queued :: "event list \<Rightarrow> (string \<times> string) list" where
  "queued [] = []"
| "queued (QueuePut u p # es) = (u, p) # queued es"
| "queued (e # es) = queued es"

fun fetched :: "event list \<Rightarrow> string list" where
  "fetched [] = []"
| "fetched (GetPage u # es) = u # fetched es"
| "fetched (e # es) = fetched es"

fun inserted :: "event list \<Rightarrow> string list" where
  "inserted [] = []"
| "inserted (VisitedAdd u # es) = u # inserted es"
| "inserted (e # es) = inserted es"

fun written :: "event list \<Rightarrow> (string \<times> document) list" where
  "written [] = []"
| "written (WriteFile p doc # es) = (p, doc) # written es"
| "written (e # es) = written es"

text \<open>
  A record of effects in which every insertion into the visited set is followed at once by
  the fetch of the same URL, and no page is fetched otherwise.
\<close>

fun paired :: "event list \<Rightarrow> bool" where
  "paired [] = True"
| "paired (VisitedAdd u # GetPage v # es) = (u = v \<and> paired es)"
| "paired (VisitedAdd u # es) = False"
| "paired (GetPage v # es) = False"
| "paired (e # es) = paired es"

text \<open>
  How a state may have grown out of an earlier one: the record has been extended, the URLs
  inserted since are new and pairwise different, and the visited set is the old one and they.
\<close>

definition grows :: "crawl_state \<Rightarrow> crawl_state \<Rightarrow> bool" where
  "grows st st' \<longleftrightarrow>
     (\<exists>es. trace st' = trace st @ es \<and> paired es \<and> distinct (inserted es) \<and>
        set (inserted es) \<inter> visited st = {} \<and> visited st' = visited st \<union> set (inserted es))"

section \<open>The download workers\<close>

text \<open>
  What \<^verbatim>\<open>requests.get(url, stream=True)\<close> and the iteration over
  \<^verbatim>\<open>response.iter_content\<close> can do: the request raises \<^verbatim>\<open>RequestException\<close>
  (\<open>RequestFailed\<close>), or a response arrives with a status code, a \<^verbatim>\<open>content-length\<close>
  header, and a body that yields some chunks and then either ends or raises
  \<^verbatim>\<open>RequestException\<close> (the last field is \<open>False\<close>). The header is kept as what
  \<^verbatim>\<open>int(...)\<close> makes of it: absent, a number, or text that makes \<^verbatim>\<open>int\<close> raise
  \<^verbatim>\<open>ValueError\<close>.
\<close>

datatype content_length = Absent | Declared int | Malformed

datatype response = RequestFailed | Response nat content_length "string list" bool

datatype exn = ValueError | TypeError

record disk =
  files :: "string \<rightharpoonup> string"
  log :: "event list"

definition logged :: "event \<Rightarrow> disk \<Rightarrow> disk" where
  "logged e d = d\<lparr>log := log d @ [e]\<rparr>"

text \<open>\<^verbatim>\<open>response.raise_for_status()\<close> raises on the status codes 400 to 599.\<close>

definition is_error_status :: "nat \<Rightarrow> bool" where
  "is_error_status status \<longleftrightarrow> 400 \<le> status \<and> status < 600"

text \<open>
  \<^verbatim>\<open>save_file\<close>: the value is \<open>Inr\<close> of the boolean it returns, or \<open>Inl\<close> of an exception
  that its \<^verbatim>\<open>except RequestException\<close> clause does not catch.
\<close>

definition save_file ::
  "(string \<Rightarrow> response) \<Rightarrow> int \<Rightarrow> string \<Rightarrow> string \<Rightarrow> disk \<Rightarrow> (exn + bool) \<times> disk" where
  "save_file http max_size url save_path d =
     (case http url of
        RequestFailed \<Rightarrow> (Inr False, logged (LogError url) d)
      | Response status header chunks complete \<Rightarrow>
          if is_error_status status then (Inr False, logged (LogError url) d)
          else
            (case header of
               Malformed \<Rightarrow> (Inl ValueError, d)
             | _ \<Rightarrow>
                 let total_size = (case header of Declared n \<Rightarrow> n | _ \<Rightarrow> 0)
                 in if total_size > max_size * 1024 * 1024
                    then (Inr False, logged (LogWarning url) d)
                    else
                      let save_path = sanitize_filename save_path;
                          d1 = d\<lparr>files := (files d)(save_path \<mapsto> concat chunks)\<rparr>
                      in if complete then (Inr True, logged (LogInfo save_path) d1)
                         else (Inr False, logged (LogError url) d1)))"

text \<open>
  An entry of \<^verbatim>\<open>download_queue\<close>: the tuple \<^verbatim>\<open>(url, save_path)\<close>, whose first component
  the worker compares with \<^verbatim>\<open>None\<close>, or the bare \<^verbatim>\<open>None\<close> that \<^verbatim>\<open>main\<close> puts.
\<close>

datatype item = Task "string option" string | Sentinel

text \<open>
  \<^verbatim>\<open>download_worker\<close> run on the entries that \<^verbatim>\<open>download_queue.get()\<close> hands to it, in
  order. It leaves its loop through \<^verbatim>\<open>break\<close> or through an exception nothing catches;
  with no entry left it is blocked in \<^verbatim>\<open>get\<close>. Unpacking the bare \<^verbatim>\<open>None\<close> into
  \<^verbatim>\<open>url, save_path\<close> raises \<^verbatim>\<open>TypeError\<close>. The number counts its calls of
  \<^verbatim>\<open>task_done\<close>.
\<close>

datatype exit = Break | Uncaught exn | Blocked

fun download_worker ::
  "(string \<Rightarrow> response) \<Rightarrow> int \<Rightarrow> item list \<Rightarrow> nat \<times> disk \<Rightarrow> exit \<times> nat \<times> disk" where
  "download_worker http max_size [] (n, d) = (Blocked, n, d)"
| "download_worker http max_size (Sentinel # items) (n, d) = (Uncaught TypeError, n, d)"
| "download_worker http max_size (Task None save_path # items) (n, d) = (Break, n, d)"
| "download_worker http max_size (Task (Some url) save_path # items) (n, d) =
     (case save_file http max_size url save_path d of
        (Inl e, d') \<Rightarrow> (Uncaught e, n, d')
      | (Inr saved, d') \<Rightarrow> download_worker http max_size items (Suc n, d'))"

section \<open>The worker pool\<close>

text \<open>
  \<^verbatim>\<open>main\<close> starts the worker threads, runs the traversal, waits in
  \<^verbatim>\<open>download_queue.join()\<close>, puts one \<^verbatim>\<open>None\<close> per thread and joins the threads. The
  threads and \<^verbatim>\<open>main\<close> interleave; a step of the pool is one queue operation of one of
  them, or one complete \<^verbatim>\<open>save_file\<close> call followed by \<^verbatim>\<open>task_done\<close>.

  A thread is blocked in (or about to call) \<^verbatim>\<open>get\<close>, or inside \<^verbatim>\<open>save_file\<close> for a task,
  or it has left its loop: through \<^verbatim>\<open>break\<close>, or through an exception that nothing
  catches.
\<close>

datatype thread = Waiting | Saving string string | Left | Died exn

fun alive :: "thread \<Rightarrow> bool" where
  "alive Waiting = True"
| "alive (Saving u p) = True"
| "alive Left = False"
| "alive (Died e) = False"

text \<open>
  Where \<^verbatim>\<open>main\<close> is: in the traversal, with the tasks it will still put; in
  \<^verbatim>\<open>download_queue.join()\<close>; in the loop that puts \<^verbatim>\<open>None\<close>, with the number still to put;
  in the loop that joins the threads; at its end.
\<close>

datatype main_pc = Crawling "(string \<times> string) list" | Joining | Stopping nat | JoinThreads | Done

text \<open>
  The queue with its counter of unfinished tasks (\<^verbatim>\<open>put\<close> increments it, \<^verbatim>\<open>task_done\<close>
  decrements it, \<^verbatim>\<open>join\<close> waits for zero), the threads, and the disk they write to. Three
  fields only record what has happened: what each thread has taken from the queue, the
  tasks for which \<^verbatim>\<open>save_file\<close> has returned, with the value returned, and the tasks
  whose \<^verbatim>\<open>save_file\<close> raised.
\<close>

record pool =
  queue :: "item list"
  unfinished_tasks :: nat
  threads :: "thread list"
  taken :: "item list list"
  finished :: "((string \<times> string) \<times> bool) list"
  lost :: "(string \<times> string) list"
  pool_disk :: disk
  main :: main_pc

definition pool_init :: "nat \<Rightarrow> (string \<times> string) list \<Rightarrow> disk \<Rightarrow> pool" where
  "pool_init T tasks d =
     \<lparr>queue = [], unfinished_tasks = 0, threads = replicate T Waiting, taken = replicate T [],
      finished = [], lost = [], pool_disk = d, main = Crawling tasks\<rparr>"

text \<open>Thread \<open>i\<close> takes the entry \<open>x\<close> off the queue, \<open>q\<close> is left, and it goes on as \<open>t\<close>.\<close>

definition take_item :: "nat \<Rightarrow> item \<Rightarrow> item list \<Rightarrow> thread \<Rightarrow> pool \<Rightarrow> pool" where
  "take_item i x q t s =
     s\<lparr>queue := q, threads := (threads s)[i := t], taken := (taken s)[i := taken s ! i @ [x]]\<rparr>"

inductive pool_step :: "(string \<Rightarrow> response) \<Rightarrow> int \<Rightarrow> nat \<Rightarrow> pool \<Rightarrow> pool \<Rightarrow> bool"
  for http :: "string \<Rightarrow> response" and max_size :: int and T :: nat
where
  put:
    "main s = Crawling ((u, p) # ts) \<Longrightarrow>
     pool_step http max_size T s
       (s\<lparr>queue := queue s @ [Task (Some u) p], unfinished_tasks := Suc (unfinished_tasks s),
          main := Crawling ts\<rparr>)"
| crawled:
    "main s = Crawling [] \<Longrightarrow> pool_step http max_size T s (s\<lparr>main := Joining\<rparr>)"
| joined:
    "main s = Joining \<Longrightarrow> unfinished_tasks s = 0 \<Longrightarrow>
     pool_step http max_size T s (s\<lparr>main := Stopping T\<rparr>)"
| stop:
    "main s = Stopping (Suc k) \<Longrightarrow>
     pool_step http max_size T s
       (s\<lparr>queue := queue s @ [Sentinel], unfinished_tasks := Suc (unfinished_tasks s),
          main := Stopping k\<rparr>)"
| stopped:
    "main s = Stopping 0 \<Longrightarrow> pool_step http max_size T s (s\<lparr>main := JoinThreads\<rparr>)"
| threads_joined:
    "main s = JoinThreads \<Longrightarrow> \<forall>t \<in> set (threads s). \<not> alive t \<Longrightarrow>
     pool_step http max_size T s (s\<lparr>main := Done\<rparr>)"
| get_task:
    "i < length (threads s) \<Longrightarrow> threads s ! i = Waiting \<Longrightarrow> queue s = Task (Some u) p # q \<Longrightarrow>
     pool_step http max_size T s (take_item i (Task (Some u) p) q (Saving u p) s)"
| get_break:
    "i < length (threads s) \<Longrightarrow> threads s ! i = Waiting \<Longrightarrow> queue s = Task None p # q \<Longrightarrow>
     pool_step http max_size T s (take_item i (Task None p) q Left s)"
| get_sentinel:
    "i < length (threads s) \<Longrightarrow> threads s ! i = Waiting \<Longrightarrow> queue s = Sentinel # q \<Longrightarrow>
     pool_step http max_size T s (take_item i Sentinel q (Died TypeError) s)"
| saved:
    "i < length (threads s) \<Longrightarrow> threads s ! i = Saving u p \<Longrightarrow>
     save_file http max_size u p (pool_disk s) = (Inr ok, d) \<Longrightarrow> unfinished_tasks s > 0 \<Longrightarrow>
     pool_step http max_size T s
       (s\<lparr>threads := (threads s)[i := Waiting], pool_disk := d,
          finished := finished s @ [((u, p), ok)],
          unfinished_tasks := unfinished_tasks s - 1\<rparr>)"
| save_raised:
    "i < length (threads s) \<Longrightarrow> threads s ! i = Saving u p \<Longrightarrow>
     save_file http max_size u p (pool_disk s) = (Inl e, d) \<Longrightarrow>
     pool_step http max_size T s
       (s\<lparr>threads := (threads s)[i := Died e], pool_disk := d, lost := lost s @ [(u, p)]\<rparr>)"
| task_done_raised:
    "i < length (threads s) \<Longrightarrow> threads s ! i = Saving u p \<Longrightarrow>
     save_file http max_size u p (pool_disk s) = (Inr ok, d) \<Longrightarrow> unfinished_tasks s = 0 \<Longrightarrow>
     pool_step http max_size T s
       (s\<lparr>threads := (threads s)[i := Died ValueError], pool_disk := d,
          finished := finished s @ [((u, p), ok)]\<rparr>)"

text \<open>The states of a run with \<open>T\<close> threads in which the traversal puts \<open>tasks\<close>.\<close>

inductive reachable ::
  "(string \<Rightarrow> response) \<Rightarrow> int \<Rightarrow> nat \<Rightarrow> (string \<times> string) list \<Rightarrow> disk \<Rightarrow> pool \<Rightarrow> bool"
  for http :: "string \<Rightarrow> response" and max_size :: int and T :: nat
    and tasks :: "(string \<times> string) list" and d0 :: disk
where
  init: "reachable http max_size T tasks d0 (pool_init T tasks d0)"
| step: "reachable http max_size T tasks d0 s \<Longrightarrow> pool_step http max_size T s s' \<Longrightarrow>
     reachable http max_size T tasks d0 s'"

text \<open>Counting in a state.\<close>

fun q_tasks :: "item list \<Rightarrow> (string \<times> string) list" where
  "q_tasks [] = []"
| "q_tasks (Task (Some u) p # q) = (u, p) # q_tasks q"
| "q_tasks (x # q) = q_tasks q"

definition sentinels :: "item list \<Rightarrow> nat" where
  "sentinels q = length (filter (\<lambda>x. x = Sentinel) q)"

fun in_flight :: "thread \<Rightarrow> (string \<times> string) multiset" where
  "in_flight (Saving u p) = {#(u, p)#}"
| "in_flight t = {#}"

definition saving :: "thread list \<Rightarrow> (string \<times> string) multiset" where
  "saving ts = sum_list (map in_flight ts)"

definition died :: "exn \<Rightarrow> thread list \<Rightarrow> nat" where
  "died e ts = length (filter (\<lambda>t. t = Died e) ts)"

fun to_put :: "main_pc \<Rightarrow> (string \<times> string) list" where
  "to_put (Crawling ts) = ts"
| "to_put pc = []"

fun sent :: "nat \<Rightarrow> main_pc \<Rightarrow> nat" where
  "sent T (Stopping k) = T - k"
| "sent T JoinThreads = T"
| "sent T Done = T"
| "sent T pc = 0"

fun stopping :: "main_pc \<Rightarrow> bool" where
  "stopping (Stopping k) = True"
| "stopping JoinThreads = True"
| "stopping Done = True"
| "stopping pc = False"

text \<open>What every state of a run satisfies.\<close>

definition pool_inv :: "nat \<Rightarrow> (string \<times> string) list \<Rightarrow> pool \<Rightarrow> bool" where
  "pool_inv T tasks s \<longleftrightarrow>
     length (threads s) = T \<and> length (taken s) = T \<and>
     (\<forall>p. Task None p \<notin> set (queue s)) \<and>
     Left \<notin> set (threads s) \<and>
     mset tasks =
       mset (to_put (main s)) + mset (q_tasks (queue s)) + saving (threads s) + mset (lost s) +
       mset (map fst (finished s)) \<and>
     unfinished_tasks s =
       length (q_tasks (queue s)) + size (saving (threads s)) + length (lost s) + sent T (main s) \<and>
     (\<forall>k. main s = Stopping k \<longrightarrow> k \<le> T) \<and>
     sentinels (queue s) + died TypeError (threads s) = sent T (main s) \<and>
     died ValueError (threads s) = length (lost s) \<and>
     (stopping (main s) \<longrightarrow> q_tasks (queue s) = [] \<and> saving (threads s) = {#} \<and> lost s = []) \<and>
     (main s = Done \<longrightarrow> (\<forall>t \<in> set (threads s). \<not> alive t)) \<and>
     (\<forall>i < T. if threads s ! i = Died TypeError
        then filter (\<lambda>x. x = Sentinel) (taken s ! i) = [Sentinel] \<and> last (taken s ! i) = Sentinel
        else Sentinel \<notin> set (taken s ! i))"

text \<open>A number that every step of the pool makes smaller.\<close>

fun rank :: "nat \<Rightarrow> main_pc \<Rightarrow> nat" where
  "rank T (Crawling ts) = 3 * length ts + 3 * T + 5"
| "rank T Joining = 3 * T + 4"
| "rank T (Stopping k) = 3 * k + 3"
| "rank T JoinThreads = 2"
| "rank T Done = 0"

definition pool_measure :: "nat \<Rightarrow> pool \<Rightarrow> nat" where
  "pool_measure T s = rank T (main s) + 2 * length (queue s) + size (saving (threads s))"

section \<open>A small site\<close>

text \<open>
  A concrete environment for evaluating the definitions: two pages of
  \<^verbatim>\<open>https://example.com\<close>. \<open>site_urlparse\<close> and \<open>site_urljoin\<close> tabulate the values
  of the library functions on the URLs of this site.
\<close>

definition mk_url :: "string \<Rightarrow> string \<Rightarrow> string \<Rightarrow> parse_result" where
  "mk_url s n p =
     \<lparr>url_scheme = s, url_netloc = n, url_path = p, url_params = [], url_query = [],
      url_fragment = []\<rparr>"

definition site_urlparse :: "string \<Rightarrow> parse_result" where
  "site_urlparse u =
     (case map_of
        [(''https://example.com/blog/'', mk_url ''https'' ''example.com'' ''/blog/''),
         (''https://example.com/css/style.css'', mk_url ''https'' ''example.com'' ''/css/style.css''),
         (''https://example.com/a.png'', mk_url ''https'' ''example.com'' ''/a.png''),
         (''https://example.com/b.html'', mk_url ''https'' ''example.com'' ''/b.html''),
         (''https://example.com/docs/manual.pdf'',
            mk_url ''https'' ''example.com'' ''/docs/manual.pdf''),
         (''https://example.com/about'', mk_url ''https'' ''example.com'' ''/about''),
         (''mailto:sales@example.com/offer.pdf'', mk_url ''mailto'' [] ''sales@example.com/offer.pdf'')]
        u of
        Some r \<Rightarrow> r
      | None \<Rightarrow> mk_url [] [] u)"

definition site_urljoin :: "string \<Rightarrow> string \<Rightarrow> string" where
  "site_urljoin base ref =
     (if ref \<in> set [''/css/style.css'', ''/a.png'', ''/b.html'', ''/docs/manual.pdf'', ''/about'']
         \<and> base \<in> set [''https://example.com/blog/'', ''https://example.com/about'']
      then ''https://example.com'' @ ref else ref)"

definition tag_of :: "string \<Rightarrow> string \<Rightarrow> string \<Rightarrow> rel_value option \<Rightarrow> element" where
  "tag_of t a v r = \<lparr>el_tag = t, el_attrs = [(a, v)], el_rel = r\<rparr>"

definition blog_page :: document where
  "blog_page =
     [tag_of ''link'' ''href'' ''/css/style.css'' (Some (Tokens [''stylesheet''])),
      tag_of ''img'' ''src'' ''/a.png'' None,
      tag_of ''img'' ''src'' ''/a.png'' None,
      tag_of ''a'' ''href'' ''/b.html'' (Some (Tokens [''nofollow''])),
      tag_of ''a'' ''href'' ''/docs/manual.pdf'' None,
      tag_of ''a'' ''href'' ''/about'' None,
      tag_of ''a'' ''href'' ''/docs/manual.pdf'' (Some (Tokens [''nofollow''])),
      tag_of ''a'' ''href'' ''mailto:sales@example.com/offer.pdf'' None]"

definition site_get_page :: "string \<Rightarrow> document option" where
  "site_get_page u =
     (if u = ''https://example.com/blog/'' then Some blog_page
      else if u = ''https://example.com/about'' then Some [tag_of ''img'' ''src'' ''/a.png'' None]
      else if u = ''https://example.com/b.html'' then Some []
      else None)"

definition site :: env where
  "site =
     \<lparr>urlparse = site_urlparse, urljoin = site_urljoin, get_page = site_get_page,
      getcwd = ''/home/user''\<rparr>"

definition cfg :: "bool \<Rightarrow> config" where
  "cfg follow =
     \<lparr>save_dir = ''site'', max_depth = 1, include_types = [], follow_redirects = follow\<rparr>"

definition blog_url :: string where
  "blog_url = ''https://example.com/blog/''"

text \<open>The transport as the workers see it on this site.\<close>

definition site_http :: "string \<Rightarrow> response" where
  "site_http u =
     (if u = ''https://example.com/a.png'' then Response 200 (Declared 6) [''PNG'', ''...''] True
      else if u = ''https://example.com/css/style.css'' then Response 500 Absent [] True
      else if u = ''https://example.com/docs/manual.pdf''
        then Response 200 (Declared 73400320) [] True
      else if u = ''https://example.com/video.mp4''
        then Response 200 (Declared 2048) [''abcd''] False
      else RequestFailed)"

definition empty_disk :: disk where
  "empty_disk = \<lparr>files = Map.empty, log = []\<rparr>"

definition manual_url :: string where
  "manual_url = ''https://example.com/docs/manual.pdf''"

definition png_url :: string where
  "png_url = ''https://example.com/a.png''"

definition video_url :: string where
  "video_url = ''https://example.com/video.mp4''"

definition css_url :: string where
  "css_url = ''https://example.com/css/style.css''"

definition about_url :: string where
  "about_url = ''https://example.com/about''"

text \<open>The same site when no page can be fetched.\<close>

definition offline_site :: env where
  "offline_site = site\<lparr>get_page := (\<lambda>u. None)\<rparr>"

text \<open>
  The end of a run with two threads and the one task for the image: the first thread has
  saved the image and then taken a \<^verbatim>\<open>None\<close>, the second has taken the other.
\<close>

definition png_task :: "string \<times> string" where
  "png_task = (png_url, ''site/a.png'')"

definition png_saved :: disk where
  "png_saved = \<lparr>files = [''site_a.png'' \<mapsto> ''PNG...''], log = [LogInfo ''site_a.png'']\<rparr>"

definition run_end :: pool where
  "run_end =
     \<lparr>queue = [], unfinished_tasks = 2, threads = [Died TypeError, Died TypeError],
      taken = [[Task (Some png_url) ''site/a.png'', Sentinel], [Sentinel]],
      finished = [(png_task, True)], lost = [], pool_disk = png_saved, main = Done\<rparr>"

section \<open>Properties of the traversal\<close>

text \<open>
  C5. A call whose depth is above the maximum depth, or whose URL is already in the visited
  set, returns the state it was given: the visited set and the record of effects are
  unchanged, so nothing was fetched, inserted, queued or written.
\<close>

theorem depth_or_visited_noop:
  assumes "current_depth > max_depth C \<or> url \<in> visited st"
  shows "parse_and_download E C url current_depth st = st"
  using assms by auto

theorem depth_or_visited_noop_witness:
  "2 > max_depth (cfg True) \<and> parse_and_download site (cfg True) blog_url 2 start = start \<and>
   blog_url \<in> visited (start\<lparr>visited := {blog_url}\<rparr>) \<and>
   parse_and_download site (cfg True) blog_url 0 (start\<lparr>visited := {blog_url}\<rparr>) =
     start\<lparr>visited := {blog_url}\<rparr>"
proof -
  have d: "2 > max_depth (cfg True) \<or> blog_url \<in> visited start"
    by (simp add: cfg_def)
  have v: "0 > max_depth (cfg True) \<or> blog_url \<in> visited (start\<lparr>visited := {blog_url}\<rparr>)"
    by simp
  show ?thesis
    using depth_or_visited_noop [OF d, of site] depth_or_visited_noop [OF v, of site]
    by (simp add: cfg_def)
qed

text \<open>
  C8. In the loop over the anchors, a tag whose \<^verbatim>\<open>rel\<close> attribute holds
  \<^verbatim>\<open>nofollow\<close> contributes nothing: the loop goes on with the same document and the same
  state, so the reference is neither queued nor followed nor rewritten. Neither the
  extension of its target nor any setting of the configuration (\<open>follow_redirects\<close>
  included) enters.
\<close>

theorem nofollow_anchor_rejected:
  assumes "nofollow_in (el_rel (soup ! i))"
  shows "for_resources E C url current_depth save_path ''a'' ''href'' (i # rest) (soup, st) =
         for_resources E C url current_depth save_path ''a'' ''href'' rest (soup, st)"
  using assms by (simp split: option.split)

theorem nofollow_anchor_rejected_witness:
  "nofollow_in (el_rel (blog_page ! 3)) \<and> el_tag (blog_page ! 3) = ''a'' \<and>
   map_of (el_attrs (blog_page ! 3)) ''href'' = Some ''/b.html'' \<and>
   for_resources site (cfg True) blog_url 0 ''site/blog/index.html'' ''a'' ''href'' [3]
     (blog_page, start) = (blog_page, start) \<and>
   get_page site ''https://example.com/b.html'' = Some [] \<and>
   ''https://example.com/b.html'' \<notin> set (fetched (trace (parse_and_download site (cfg True) blog_url 0 start))) \<and>
   ''https://example.com/b.html'' \<notin> fst ` set (queued (trace (parse_and_download site (cfg True) blog_url 0 start)))"
proof -
  have h: "nofollow_in (el_rel (blog_page ! 3))"
    by (simp add: blog_page_def tag_of_def)
  have t: "el_tag (blog_page ! 3) = ''a''" "map_of (el_attrs (blog_page ! 3)) ''href'' = Some ''/b.html''"
    by (simp_all add: blog_page_def tag_of_def)
  have g: "get_page site ''https://example.com/b.html'' = Some []"
    by (simp add: site_def site_get_page_def)
  have run: "''https://example.com/b.html'' \<notin> set (fetched (trace (parse_and_download site (cfg True) blog_url 0 start)))"
    "''https://example.com/b.html'' \<notin> fst ` set (queued (trace (parse_and_download site (cfg True) blog_url 0 start)))"
    by code_simp+
  from nofollow_anchor_rejected [OF h, of site "cfg True" blog_url 0 "''site/blog/index.html''" "[]" start]
    h t g run
  show ?thesis by (simp del: parse_and_download.simps)
qed

subsection \<open>The path of a page\<close>

lemma lstrip_append_index: "c \<noteq> sep \<Longrightarrow> lstrip sep (p @ c # q) = lstrip sep p @ c # q"
  by (induction p) (auto simp: lstrip_def)

lemma lstrip_not_startswith: "\<not> startswith (lstrip sep p) sep"
  unfolding lstrip_def startswith_def
  by (metis (mono_tags, lifting) dropWhile_eq_Nil_conv hd_dropWhile)

lemma join_append: "\<not> startswith a sep \<Longrightarrow> c \<noteq> sep \<Longrightarrow> os_path_join dir (a @ c # q) = os_path_join dir a @ c # q"
  by (cases a) (auto simp: os_path_join_def startswith_def endswith_def)

lemma lstrip_append_sep: "\<not> endswith p sep \<Longrightarrow> p \<noteq> [] \<Longrightarrow> lstrip sep (p @ q) = lstrip sep p @ q"
  by (induction p) (auto simp: lstrip_def endswith_def split: if_splits)

lemma lstrip_nonempty: "\<not> endswith p sep \<Longrightarrow> p \<noteq> [] \<Longrightarrow> lstrip sep p \<noteq> []"
  by (induction p) (auto simp: lstrip_def endswith_def split: if_splits)

lemma join_append2: "\<not> startswith a sep \<Longrightarrow> a \<noteq> [] \<Longrightarrow> os_path_join dir (a @ q) = os_path_join dir a @ q"
  by (cases a) (auto simp: os_path_join_def startswith_def endswith_def)

text \<open>
  C7. The path computed for a page (lines 106 to 113). If the URL path ends in a slash,
  it is the mapped directory followed by \<^verbatim>\<open>index.html\<close>; if it does not and its last
  segment has no extension, it is the mapped path followed by \<^verbatim>\<open>/index.html\<close> (directly
  \<^verbatim>\<open>index.html\<close> under the root for the empty path); and the query and the fragment of
  the URL do not enter it.
\<close>

theorem index_defaulting:
  "(endswith (url_path parsed) sep \<longrightarrow>
      page_save_path dir parsed = os_path_join dir (lstrip sep (url_path parsed)) @ ''index.html'') \<and>
   (\<not> endswith (url_path parsed) sep \<and> snd (splitext (url_path parsed)) = [] \<and> url_path parsed \<noteq> [] \<longrightarrow>
      page_save_path dir parsed = os_path_join dir (lstrip sep (url_path parsed)) @ ''/index.html'') \<and>
   (url_path parsed = [] \<longrightarrow> page_save_path dir parsed = os_path_join dir ''index.html'') \<and>
   page_save_path dir (parsed\<lparr>url_query := q, url_fragment := f\<rparr>) = page_save_path dir parsed"
proof -
  let ?p = "url_path parsed"
  have a: "page_save_path dir parsed = os_path_join dir (lstrip sep ?p) @ ''index.html''"
    if "endswith ?p sep"
  proof -
    have "lstrip sep (?p @ ''index.html'') = lstrip sep ?p @ ''index.html''"
      by (rule lstrip_append_index) (simp add: sep_def)
    moreover have "os_path_join dir (lstrip sep ?p @ ''index.html'') = os_path_join dir (lstrip sep ?p) @ ''index.html''"
      by (rule join_append) (simp add: lstrip_not_startswith, simp add: sep_def)
    ultimately show ?thesis using that by (simp add: page_save_path_def index_path_def)
  qed
  have b: "page_save_path dir parsed = os_path_join dir (lstrip sep ?p) @ ''/index.html''"
    if "\<not> endswith ?p sep" "snd (splitext ?p) = []" "?p \<noteq> []"
  proof -
    have "lstrip sep (?p @ ''/index.html'') = lstrip sep ?p @ ''/index.html''"
      using that by (simp add: lstrip_append_sep)
    moreover have "os_path_join dir (lstrip sep ?p @ ''/index.html'') = os_path_join dir (lstrip sep ?p) @ ''/index.html''"
      using that by (simp add: join_append2 lstrip_not_startswith lstrip_nonempty)
    ultimately show ?thesis using that by (simp add: page_save_path_def index_path_def)
  qed
  have c: "page_save_path dir parsed = os_path_join dir ''index.html''" if "?p = []"
    using that by (simp add: page_save_path_def index_path_def endswith_def splitext_def rfind_def lstrip_def sep_def)
  have d: "page_save_path dir (parsed\<lparr>url_query := q, url_fragment := f\<rparr>) = page_save_path dir parsed"
    by (simp add: page_save_path_def)
  from a b c d show ?thesis by blast
qed

theorem index_defaulting_witness:
  "endswith ''/blog/'' sep \<and>
   page_save_path ''site'' (mk_url ''https'' ''example.com'' ''/blog/'') = ''site/blog/index.html'' \<and>
   \<not> endswith ''/about'' sep \<and> snd (splitext ''/about'') = [] \<and>
   page_save_path ''site'' (mk_url ''https'' ''example.com'' ''/about'') = ''site/about/index.html'' \<and>
   page_save_path ''site'' (mk_url ''https'' ''example.com'' []) = ''site/index.html'' \<and>
   page_save_path ''site'' ((mk_url ''https'' ''example.com'' ''/about'')\<lparr>url_query := ''page=2'', url_fragment := ''top''\<rparr>) = ''site/about/index.html''"
proof -
  have e: "endswith ''/blog/'' sep" and n: "\<not> endswith ''/about'' sep"
    and x: "snd (splitext ''/about'') = []"
    by code_simp+
  have j1: "os_path_join ''site'' (lstrip sep ''/blog/'') @ ''index.html'' = ''site/blog/index.html''"
    and j2: "os_path_join ''site'' (lstrip sep ''/about'') @ ''/index.html'' = ''site/about/index.html''"
    and j3: "os_path_join ''site'' ''index.html'' = ''site/index.html''"
    by code_simp+
  show ?thesis
    using index_defaulting [of "mk_url ''https'' ''example.com'' ''/blog/''" "''site''" "[]" "[]"]
      index_defaulting [where parsed = "mk_url ''https'' ''example.com'' ''/about''" and dir = "''site''"
        and q = "''page=2''" and f = "''top''"]
      index_defaulting [of "mk_url ''https'' ''example.com'' []" "''site''" "[]" "[]"]
      e n x j1 j2 j3
    by (simp add: mk_url_def)
qed

section \<open>Properties of the workers\<close>

text \<open>
  C6. When the response declares a content length above \<open>max_size\<close> megabytes,
  \<^verbatim>\<open>save_file\<close> returns \<^verbatim>\<open>False\<close> without opening any file: the files are as before,
  and the log has one more record, the warning that the file is skipped (or, when the status
  code is an error, the error raised before the length is read). The worker then calls
  \<^verbatim>\<open>task_done\<close> and goes on with the rest of the queue.
\<close>

theorem oversize_skipped:
  assumes "http url = Response status (Declared n) chunks complete"
      and "n > max_size * 1024 * 1024"
  shows "save_file http max_size url save_path d =
           (Inr False, logged (if is_error_status status then LogError url else LogWarning url) d) \<and>
         files (snd (save_file http max_size url save_path d)) = files d \<and>
         download_worker http max_size (Task (Some url) save_path # items) (k, d) =
           download_worker http max_size items
             (Suc k, logged (if is_error_status status then LogError url else LogWarning url) d)"
  using assms by (simp add: save_file_def logged_def)

theorem oversize_skipped_witness:
  "site_http ''https://example.com/docs/manual.pdf'' = Response 200 (Declared 73400320) [] True \<and>
   (73400320::int) > 50 * 1024 * 1024 \<and>
   save_file site_http 50 ''https://example.com/docs/manual.pdf'' ''site/docs_manual.pdf'' empty_disk =
     (Inr False, \<lparr>files = Map.empty, log = [LogWarning ''https://example.com/docs/manual.pdf'']\<rparr>) \<and>
   download_worker site_http 50 [Task (Some ''https://example.com/docs/manual.pdf'') ''site/docs_manual.pdf''] (0, empty_disk) =
     (Blocked, 1, \<lparr>files = Map.empty, log = [LogWarning ''https://example.com/docs/manual.pdf'']\<rparr>)"
proof -
  have r: "site_http ''https://example.com/docs/manual.pdf'' = Response 200 (Declared 73400320) [] True"
    by (simp add: site_http_def)
  have b: "(73400320::int) > 50 * 1024 * 1024"
    by simp
  show ?thesis
    using oversize_skipped [where http = site_http and url = "''https://example.com/docs/manual.pdf''"
        and max_size = 50 and save_path = "''site/docs_manual.pdf''" and d = empty_disk
        and items = "[]" and k = 0, OF r b] r
    by (simp add: is_error_status_def logged_def empty_disk_def)
qed

section \<open>Anchors that point at resources\<close>

text \<open>
  C10, as amended. An anchor with a non-empty \<^verbatim>\<open>href\<close> and no \<^verbatim>\<open>nofollow\<close>, whose
  resolved URL has a path with an extension in \<open>RESOURCE_TYPES\<close> (compared in lower
  case) that the include filter, if there is one, allows, and whose resolved URL is valid
  and not in the visited set: the loop goes on from the state in which the URL has been
  queued with its path and the \<^verbatim>\<open>href\<close> has been rewritten to the relative link. No
  call of \<open>parse_and_download\<close> is made for it, whatever \<open>follow_redirects\<close> is.
\<close>

theorem resource_anchor_enqueued:
  assumes href: "map_of (el_attrs (soup ! i)) ''href'' = Some src" "src \<noteq> []"
      and rel: "\<not> nofollow_in (el_rel (soup ! i))"
      and url: "resource_url = urljoin E url src"
      and ext: "lower (snd (splitext (url_path (urlparse E resource_url)))) \<in> set RESOURCE_TYPES"
      and incl: "include_types C = [] \<or>
                 lower (snd (splitext (url_path (urlparse E resource_url)))) \<in> set (include_types C)"
      and valid: "is_valid_url E resource_url"
      and fresh: "resource_url \<notin> visited st"
      and path: "resource_path = resource_save_path (save_dir C) (url_path (urlparse E resource_url))"
  shows "for_resources E C url current_depth save_path ''a'' ''href'' (i # rest) (soup, st) =
         for_resources E C url current_depth save_path ''a'' ''href'' rest
           (soup[i := set_attr ''href'' (relative_link (getcwd E) resource_path save_path) (soup ! i)],
            emit [MakeDirs (dirname resource_path), QueuePut resource_url resource_path] st)"
proof -
  have v: "resource_url \<notin> visited (emit [MakeDirs (dirname resource_path)] st)"
    using fresh by (simp add: emit_def)
  have e: "emit [QueuePut resource_url resource_path] (emit [MakeDirs (dirname resource_path)] st) =
           emit [MakeDirs (dirname resource_path), QueuePut resource_url resource_path] st"
    by (simp add: emit_def)
  show ?thesis
    using href rel url [symmetric] ext incl valid v path [symmetric] e
    by (auto simp: Let_def)
qed

theorem resource_anchor_enqueued_witness:
  "map_of (el_attrs (blog_page ! 4)) ''href'' = Some ''/docs/manual.pdf'' \<and>
   \<not> nofollow_in (el_rel (blog_page ! 4)) \<and>
   lower (snd (splitext (url_path (urlparse site manual_url)))) \<in> set RESOURCE_TYPES \<and>
   is_valid_url site manual_url \<and> manual_url \<notin> visited start \<and> follow_redirects (cfg True) \<and>
   for_resources site (cfg True) blog_url 0 ''site/blog/index.html'' ''a'' ''href'' [4] (blog_page, start) =
     (blog_page[4 := tag_of ''a'' ''href'' ''../docs_manual.pdf'' None],
      start\<lparr>trace := [MakeDirs ''site'', QueuePut manual_url ''site/docs_manual.pdf'']\<rparr>)"
proof -
  have href: "map_of (el_attrs (blog_page ! 4)) ''href'' = Some ''/docs/manual.pdf''"
    and ne: "''/docs/manual.pdf'' \<noteq> []"
    and rel: "\<not> nofollow_in (el_rel (blog_page ! 4))"
    by (simp_all add: blog_page_def tag_of_def)
  have url: "manual_url = urljoin site blog_url ''/docs/manual.pdf''"
    by (simp add: manual_url_def site_def site_urljoin_def blog_url_def)
  have ext: "lower (snd (splitext (url_path (urlparse site manual_url)))) \<in> set RESOURCE_TYPES"
    by code_simp
  have incl: "include_types (cfg True) = [] \<or>
      lower (snd (splitext (url_path (urlparse site manual_url)))) \<in> set (include_types (cfg True))"
    by (simp add: cfg_def)
  have valid: "is_valid_url site manual_url"
    by code_simp
  have fresh: "manual_url \<notin> visited start"
    by (simp add: start_def)
  have path: "''site/docs_manual.pdf'' = resource_save_path (save_dir (cfg True)) (url_path (urlparse site manual_url))"
    by code_simp
  have link: "relative_link (getcwd site) ''site/docs_manual.pdf'' ''site/blog/index.html'' = ''../docs_manual.pdf''"
    by code_simp
  have dir: "dirname ''site/docs_manual.pdf'' = ''site''"
    by code_simp
  have upd: "set_attr ''href'' ''../docs_manual.pdf'' (blog_page ! 4) = tag_of ''a'' ''href'' ''../docs_manual.pdf'' None"
    by (simp add: blog_page_def tag_of_def set_attr_def)
  have fr: "follow_redirects (cfg True)"
    by (simp add: cfg_def)
  show ?thesis
    using resource_anchor_enqueued [OF href ne rel url ext incl valid fresh path,
        of 0 "''site/blog/index.html''" "[]"]
      href rel ext valid fresh fr
    by (simp add: link dir upd emit_def start_def)
qed

text \<open>
  C10 as stated fails: an anchor to a \<^verbatim>\<open>.pdf\<close> is not queued and not rewritten when
  the include filter does not list \<^verbatim>\<open>.pdf\<close>, when its URL is in the visited set, when it
  carries \<^verbatim>\<open>nofollow\<close>, or when its URL has no host.
\<close>

theorem resource_anchor_counterexample:
  "lower (snd (splitext (url_path (urlparse site (urljoin site blog_url ''/docs/manual.pdf''))))) \<in> set RESOURCE_TYPES \<and>
   el_tag (blog_page ! 4) = ''a'' \<and>
   for_resources site (cfg True\<lparr>include_types := [''.jpg'']\<rparr>) blog_url 0 ''site/blog/index.html''
     ''a'' ''href'' [4] (blog_page, start) = (blog_page, start) \<and>
   for_resources site (cfg True) blog_url 0 ''site/blog/index.html'' ''a'' ''href'' [4]
     (blog_page, start\<lparr>visited := {manual_url}\<rparr>) =
     (blog_page, \<lparr>visited = {manual_url}, trace = [MakeDirs ''site'']\<rparr>) \<and>
   lower (snd (splitext (url_path (urlparse site
      (urljoin site blog_url ''mailto:sales@example.com/offer.pdf''))))) \<in> set RESOURCE_TYPES \<and>
   el_tag (blog_page ! 7) = ''a'' \<and>
   for_resources site (cfg True) blog_url 0 ''site/blog/index.html'' ''a'' ''href'' [7]
     (blog_page, start) = (blog_page, start\<lparr>trace := [MakeDirs ''site'']\<rparr>) \<and>
   map_of (el_attrs (blog_page ! 6)) ''href'' = Some ''/docs/manual.pdf'' \<and>
   el_tag (blog_page ! 6) = ''a'' \<and>
   for_resources site (cfg True) blog_url 0 ''site/blog/index.html'' ''a'' ''href'' [6]
     (blog_page, start) = (blog_page, start)"
  by code_simp

section \<open>Sanitised paths\<close>

lemma sanitize_no_sep: "sep \<notin> set (sanitize_filename p)"
  by (auto simp: sanitize_filename_def invalid_chars_def sep_def)

text \<open>
  C3 at the page \<^verbatim>\<open>https://example.com/blog/\<close> with the output root \<^verbatim>\<open>site\<close>. The path
  computed for the page is \<^verbatim>\<open>site/blog/index.html\<close>, but \<^verbatim>\<open>sanitize_filename\<close> is
  applied to the whole path before the file is opened, so the page is written to
  \<^verbatim>\<open>site_blog_index.html\<close>. The stylesheet \<^verbatim>\<open>/css/style.css\<close> is queued under
  \<^verbatim>\<open>site/css_style.css\<close>, and the worker, which sanitises the whole path once more, writes
  the image queued under \<^verbatim>\<open>site/a.png\<close> to \<^verbatim>\<open>site_a.png\<close>. Every separator has been
  replaced.
\<close>

theorem separators_sanitized:
  "page_save_path ''site'' (urlparse site blog_url) = ''site/blog/index.html'' \<and>
   map fst (written (trace (parse_and_download site (cfg False) blog_url 0 start))) =
     [''site_blog_index.html''] \<and>
   resource_save_path ''site'' (url_path (urlparse site css_url)) = ''site/css_style.css'' \<and>
   (css_url, ''site/css_style.css'') \<in> set (queued (trace (parse_and_download site (cfg False) blog_url 0 start))) \<and>
   (png_url, ''site/a.png'') \<in> set (queued (trace (parse_and_download site (cfg False) blog_url 0 start))) \<and>
   files (snd (save_file site_http 50 png_url ''site/a.png'' empty_disk)) ''site_a.png'' = Some ''PNG...'' \<and>
   files (snd (save_file site_http 50 png_url ''site/a.png'' empty_disk)) ''site/a.png'' = None"
  by code_simp

text \<open>
  C4 at the same page. The \<^verbatim>\<open>src\<close> of the image is rewritten to \<^verbatim>\<open>../a.png\<close>, the
  relative path from \<^verbatim>\<open>site/blog\<close> to the queued path \<^verbatim>\<open>site/a.png\<close>. The page is
  written to \<^verbatim>\<open>site_blog_index.html\<close> and the image to \<^verbatim>\<open>site_a.png\<close>; from the
  written page the link leads to \<^verbatim>\<open>../a.png\<close>, which is neither the file the worker wrote
  nor the queued path.
\<close>

theorem rewritten_link_misses_file:
  "(png_url, ''site/a.png'') \<in> set (queued (trace (parse_and_download site (cfg False) blog_url 0 start))) \<and>
   map (\<lambda>(p, doc). (p, map_of (el_attrs (doc ! 1)) ''src''))
     (written (trace (parse_and_download site (cfg False) blog_url 0 start))) =
     [(''site_blog_index.html'', Some ''../a.png'')] \<and>
   relative_link (getcwd site) ''site/a.png'' (page_save_path ''site'' (urlparse site blog_url)) = ''../a.png'' \<and>
   files (snd (save_file site_http 50 png_url ''site/a.png'' empty_disk)) ''site_a.png'' = Some ''PNG...'' \<and>
   resolve_link ''site_blog_index.html'' ''../a.png'' = ''../a.png'' \<and>
   resolve_link ''site_blog_index.html'' ''../a.png'' \<noteq> ''site_a.png'' \<and>
   resolve_link ''site_blog_index.html'' ''../a.png'' \<noteq> ''site/a.png''"
  by code_simp

section \<open>The visited set\<close>

text \<open>
  C1 as stated fails at the same page, which refers to \<^verbatim>\<open>/a.png\<close> twice. The image is
  put on the queue twice; the only URL ever inserted into the visited set is the page's
  own, and the URL of the image is not in the set when the traversal ends.
\<close>

theorem resource_urls_not_inserted:
  "queued (trace (parse_and_download site (cfg False) blog_url 0 start)) =
     [(png_url, ''site/a.png''), (png_url, ''site/a.png''), (css_url, ''site/css_style.css''),
      (manual_url, ''site/docs_manual.pdf'')] \<and>
   inserted (trace (parse_and_download site (cfg False) blog_url 0 start)) = [blog_url] \<and>
   visited (parse_and_download site (cfg False) blog_url 0 start) = {blog_url} \<and>
   png_url \<notin> visited (parse_and_download site (cfg False) blog_url 0 start)"
  by code_simp

section \<open>Failed fetches\<close>

text \<open>
  C9 as stated fails for a body that breaks off: the response for the video has a good
  status and an admissible length, one chunk arrives, then the stream raises. The error is
  logged and \<^verbatim>\<open>save_file\<close> returns \<^verbatim>\<open>False\<close>, but the file it opened stays, with the
  chunk in it. The second task has a path without any character to sanitise, so the file
  is at the very path of the task.
\<close>

theorem failed_fetch_counterexample:
  "site_http video_url = Response 200 (Declared 2048) [''abcd''] False \<and>
   save_file site_http 50 video_url ''site/video.mp4'' empty_disk =
     (Inr False, \<lparr>files = [''site_video.mp4'' \<mapsto> ''abcd''], log = [LogError video_url]\<rparr>) \<and>
   save_file site_http 50 video_url ''video.mp4'' empty_disk =
     (Inr False, \<lparr>files = [''video.mp4'' \<mapsto> ''abcd''], log = [LogError video_url]\<rparr>)"
  by (simp add: site_http_def video_url_def save_file_def is_error_status_def logged_def
      empty_disk_def sanitize_filename_def invalid_chars_def backslash_def dquote_def Let_def)

lemma emit_emit: "emit es (emit ds st) = emit (ds @ es) st"
  by (simp add: emit_def)

lemma visited_emit: "visited (emit es st) = visited st"
  by (simp add: emit_def)

lemma files_logged: "files (logged e d) = files d"
  by (simp add: logged_def)

lemma failed_page_fetch:
  assumes "get_page E u = None" "\<not> depth > max_depth C" "u \<notin> visited st"
  shows "parse_and_download E C u depth st =
         emit [VisitedAdd u, GetPage u, LogError u] (st\<lparr>visited := insert u (visited st)\<rparr>)"
  using assms by (simp add: emit_emit)

text \<open>
  C9, as amended. (1) A resource request that raises, or that is answered with an error
  status, is logged; \<^verbatim>\<open>save_file\<close> returns \<^verbatim>\<open>False\<close> and no file is created or changed;
  the worker calls \<^verbatim>\<open>task_done\<close> and goes on with the queue. (2) A body that breaks off
  (after a good status and an admissible length) is logged as well and the worker goes on
  in the same way; the file opened for it holds the chunks received. (3) A page whose
  fetch fails is inserted into the visited set and logged, and the call returns. (4) When
  that call was made for an anchor of another page, the loop over that page's anchors goes
  on with the next one.
\<close>

theorem fetch_errors_contained:
  "(http url = RequestFailed \<or> (http url = Response status header chunks complete \<and> is_error_status status) \<longrightarrow>
      save_file http max_size url save_path d = (Inr False, logged (LogError url) d) \<and>
      files (snd (save_file http max_size url save_path d)) = files d \<and>
      download_worker http max_size (Task (Some url) save_path # items) (k, d) =
        download_worker http max_size items (Suc k, logged (LogError url) d)) \<and>
   (http url = Response status header chunks False \<and> \<not> is_error_status status \<and>
    (header = Absent \<and> 0 \<le> max_size * 1024 * 1024 \<or>
     (\<exists>n. header = Declared n \<and> n \<le> max_size * 1024 * 1024)) \<longrightarrow>
      save_file http max_size url save_path d =
        (Inr False,
         logged (LogError url) (d\<lparr>files := (files d)(sanitize_filename save_path \<mapsto> concat chunks)\<rparr>)) \<and>
      download_worker http max_size (Task (Some url) save_path # items) (k, d) =
        download_worker http max_size items
          (Suc k, logged (LogError url)
             (d\<lparr>files := (files d)(sanitize_filename save_path \<mapsto> concat chunks)\<rparr>))) \<and>
   (get_page E u = None \<and> depth \<le> max_depth C \<and> u \<notin> visited st \<longrightarrow>
      parse_and_download E C u depth st =
        emit [VisitedAdd u, GetPage u, LogError u] (st\<lparr>visited := insert u (visited st)\<rparr>)) \<and>
   (map_of (el_attrs (soup ! i)) ''href'' = Some src \<and> src \<noteq> [] \<and>
    \<not> nofollow_in (el_rel (soup ! i)) \<and>
    lower (snd (splitext (url_path (urlparse E (urljoin E page src))))) \<notin> set RESOURCE_TYPES \<and>
    (include_types C = [] \<or>
     lower (snd (splitext (url_path (urlparse E (urljoin E page src))))) \<in> set (include_types C)) \<and>
    is_valid_url E (urljoin E page src) \<and> urljoin E page src \<notin> visited st \<and>
    follow_redirects C \<and> depth + 1 \<le> max_depth C \<and> get_page E (urljoin E page src) = None \<longrightarrow>
      for_resources E C page depth page_path ''a'' ''href'' (i # rest) (soup, st) =
        for_resources E C page depth page_path ''a'' ''href'' rest
          (soup,
           emit [MakeDirs (dirname (resource_save_path (save_dir C)
                    (url_path (urlparse E (urljoin E page src))))),
                 VisitedAdd (urljoin E page src), GetPage (urljoin E page src),
                 LogError (urljoin E page src)]
             (st\<lparr>visited := insert (urljoin E page src) (visited st)\<rparr>)))"
proof -
  have early: "save_file http max_size url save_path d = (Inr False, logged (LogError url) d)"
    if "http url = RequestFailed \<or>
        (http url = Response status header chunks complete \<and> is_error_status status)"
    using that by (auto simp: save_file_def)
  have late: "save_file http max_size url save_path d =
        (Inr False,
         logged (LogError url) (d\<lparr>files := (files d)(sanitize_filename save_path \<mapsto> concat chunks)\<rparr>))"
    if "http url = Response status header chunks False" "\<not> is_error_status status"
       "header = Absent \<and> 0 \<le> max_size * 1024 * 1024 \<or>
        (\<exists>n. header = Declared n \<and> n \<le> max_size * 1024 * 1024)"
    using that by (auto simp: save_file_def Let_def)
  have page: "parse_and_download E C u depth st =
        emit [VisitedAdd u, GetPage u, LogError u] (st\<lparr>visited := insert u (visited st)\<rparr>)"
    if "get_page E u = None" "depth \<le> max_depth C" "u \<notin> visited st" for u depth st
    using that by (intro failed_page_fetch) auto
  have link: "for_resources E C page depth page_path ''a'' ''href'' (i # rest) (soup, st) =
        for_resources E C page depth page_path ''a'' ''href'' rest
          (soup,
           emit [MakeDirs (dirname (resource_save_path (save_dir C)
                    (url_path (urlparse E (urljoin E page src))))),
                 VisitedAdd (urljoin E page src), GetPage (urljoin E page src),
                 LogError (urljoin E page src)]
             (st\<lparr>visited := insert (urljoin E page src) (visited st)\<rparr>))"
    if h: "map_of (el_attrs (soup ! i)) ''href'' = Some src" "src \<noteq> []"
      "\<not> nofollow_in (el_rel (soup ! i))"
      "lower (snd (splitext (url_path (urlparse E (urljoin E page src))))) \<notin> set RESOURCE_TYPES"
      "include_types C = [] \<or>
       lower (snd (splitext (url_path (urlparse E (urljoin E page src))))) \<in> set (include_types C)"
      "is_valid_url E (urljoin E page src)" "urljoin E page src \<notin> visited st"
      "follow_redirects C" "depth + 1 \<le> max_depth C" "get_page E (urljoin E page src) = None"
  proof -
    let ?u = "urljoin E page src"
    let ?m = "MakeDirs (dirname (resource_save_path (save_dir C) (url_path (urlparse E ?u))))"
    have "parse_and_download E C ?u (depth + 1) (emit [?m] st) =
          emit [VisitedAdd ?u, GetPage ?u, LogError ?u]
            ((emit [?m] st)\<lparr>visited := insert ?u (visited (emit [?m] st))\<rparr>)"
      using h by (intro page) (simp_all add: visited_emit)
    also have "\<dots> = emit [?m, VisitedAdd ?u, GetPage ?u, LogError ?u]
            (st\<lparr>visited := insert ?u (visited st)\<rparr>)"
      by (simp add: emit_def)
    finally have rec: "parse_and_download E C ?u (depth + 1) (emit [?m] st) =
          emit [?m, VisitedAdd ?u, GetPage ?u, LogError ?u] (st\<lparr>visited := insert ?u (visited st)\<rparr>)" .
    show ?thesis
      using h(1-8) by (subst for_resources.simps) (auto simp: Let_def visited_emit rec simp del: parse_and_download.simps for_resources.simps)
  qed
  show ?thesis
    using early late page link
    by (simp add: files_logged del: parse_and_download.simps for_resources.simps)
qed

theorem fetch_errors_contained_witness:
  "site_http css_url = Response 500 Absent [] True \<and> is_error_status 500 \<and>
   save_file site_http 50 css_url ''site/css_style.css'' empty_disk =
     (Inr False, \<lparr>files = Map.empty, log = [LogError css_url]\<rparr>) \<and>
   download_worker site_http 50
     [Task (Some css_url) ''site/css_style.css'', Task (Some video_url) ''site/video.mp4''] (0, empty_disk) =
     (Blocked, 2, \<lparr>files = [''site_video.mp4'' \<mapsto> ''abcd''], log = [LogError css_url, LogError video_url]\<rparr>) \<and>
   get_page offline_site blog_url = None \<and>
   parse_and_download offline_site (cfg True) blog_url 0 start =
     \<lparr>visited = {blog_url}, trace = [VisitedAdd blog_url, GetPage blog_url, LogError blog_url]\<rparr> \<and>
   for_resources offline_site (cfg True) blog_url 0 ''site/blog/index.html'' ''a'' ''href'' [5, 6]
     (blog_page, start) =
     (blog_page,
      \<lparr>visited = {about_url},
       trace = [MakeDirs ''site'', VisitedAdd about_url, GetPage about_url, LogError about_url]\<rparr>)"
proof -
  have css: "site_http css_url = Response 500 Absent [] True \<and> is_error_status 500"
    by (simp add: site_http_def css_url_def is_error_status_def)
  have video: "site_http video_url = Response 200 (Declared 2048) [''abcd''] False \<and>
      \<not> is_error_status 200 \<and> (2048::int) \<le> 50 * 1024 * 1024"
    by (simp add: site_http_def video_url_def is_error_status_def)
  have sf: "sanitize_filename ''site/video.mp4'' = ''site_video.mp4''"
    by code_simp
  have off: "get_page offline_site blog_url = None" "get_page offline_site about_url = None"
    by (simp_all add: offline_site_def)
  have anchor: "map_of (el_attrs (blog_page ! 5)) ''href'' = Some ''/about''"
    "\<not> nofollow_in (el_rel (blog_page ! 5))" "nofollow_in (el_rel (blog_page ! 6))"
    by (simp_all add: blog_page_def tag_of_def)
  have join: "urljoin offline_site blog_url ''/about'' = about_url"
    by (simp add: offline_site_def site_def site_urljoin_def blog_url_def about_url_def)
  have ext: "lower (snd (splitext (url_path (urlparse offline_site about_url)))) \<notin> set RESOURCE_TYPES"
    by code_simp
  have valid: "is_valid_url offline_site about_url"
    by code_simp
  have dir: "dirname (resource_save_path (save_dir (cfg True)) (url_path (urlparse offline_site about_url))) = ''site''"
    by code_simp
  have c: "include_types (cfg True) = []" "follow_redirects (cfg True)" "max_depth (cfg True) = 1"
    by (simp_all add: cfg_def)
  note thm1 = fetch_errors_contained [where http = site_http and url = css_url and status = 500
      and header = Absent and chunks = "[]" and complete = True and max_size = 50
      and save_path = "''site/css_style.css''" and d = empty_disk and k = 0
      and items = "[Task (Some video_url) ''site/video.mp4'']"
      and E = offline_site and u = blog_url and depth = 0 and C = "cfg True" and st = start
      and soup = blog_page and i = 5 and src = "''/about''" and page = blog_url
      and page_path = "''site/blog/index.html''" and rest = "[6]"]
  note thm2 = fetch_errors_contained [where http = site_http and url = video_url and status = 200
      and header = "Declared 2048" and chunks = "[''abcd'']" and max_size = 50
      and save_path = "''site/video.mp4''" and d = "logged (LogError css_url) empty_disk" and k = 1
      and items = "[]"]
  have skip: "for_resources offline_site (cfg True) blog_url 0 ''site/blog/index.html'' ''a'' ''href'' [6] (blog_page, st) = (blog_page, st)" for st
    using anchor(3) by (simp split: option.split)
  show ?thesis
    using thm1 thm2 css video off anchor(1,2) ext valid c
    by (simp add: join dir sf skip logged_def empty_disk_def emit_def start_def
        del: parse_and_download.simps for_resources.simps)
qed

section \<open>Pages are inserted once\<close>

lemma inserted_append: "inserted (xs @ ys) = inserted xs @ inserted ys"
  by (induction xs rule: inserted.induct) auto

lemma fetched_append: "fetched (xs @ ys) = fetched xs @ fetched ys"
  by (induction xs rule: fetched.induct) auto

lemma paired_append: "paired xs \<Longrightarrow> paired (xs @ ys) = paired ys"
  by (induction xs rule: paired.induct) auto

lemma paired_fetched: "paired es \<Longrightarrow> fetched es = inserted es"
  by (induction es rule: paired.induct) auto

lemma grows_refl: "grows st st"
  by (simp add: grows_def)

lemma grows_trans:
  assumes "grows a b" "grows b c"
  shows "grows a c"
proof -
  from assms(1) obtain es where es: "trace b = trace a @ es" "paired es" "distinct (inserted es)"
    "set (inserted es) \<inter> visited a = {}" "visited b = visited a \<union> set (inserted es)"
    by (auto simp: grows_def)
  from assms(2) obtain fs where fs: "trace c = trace b @ fs" "paired fs" "distinct (inserted fs)"
    "set (inserted fs) \<inter> visited b = {}" "visited c = visited b \<union> set (inserted fs)"
    by (auto simp: grows_def)
  have "trace c = trace a @ (es @ fs)"
    using es(1) fs(1) by simp
  moreover have "paired (es @ fs)"
    using es(2) fs(2) by (simp add: paired_append)
  moreover have "distinct (inserted (es @ fs))"
    using es(3,5) fs(3,4) by (auto simp: inserted_append)
  moreover have "set (inserted (es @ fs)) \<inter> visited a = {}"
    using es(4,5) fs(4) by (auto simp: inserted_append)
  moreover have "visited c = visited a \<union> set (inserted (es @ fs))"
    using es(5) fs(5) by (auto simp: inserted_append)
  ultimately show ?thesis
    unfolding grows_def by blast
qed

lemma grows_emit:
  assumes "paired es" "inserted es = []"
  shows "grows st (emit es st)"
  using assms by (simp add: grows_def emit_def)

lemma grows_insert:
  assumes "url \<notin> visited st"
  shows "grows st (emit [VisitedAdd url, GetPage url] (st\<lparr>visited := insert url (visited st)\<rparr>))"
  using assms by (simp add: grows_def emit_def)

lemma grows_all:
  "grows st (parse_and_download E C url d st)"
  "grows (snd acc) (snd (for_tags E C url d sp ts acc))"
  "grows (snd acc2) (snd (for_resources E C url d sp tag attr is acc2))"
proof (induction E C url d st and E C url d sp ts acc and E C url d sp tag attr "is" acc2
    rule: parse_and_download_for_tags_for_resources.induct)
  case (1 E C url current_depth st)
  show ?case
  proof (cases "max_depth C < current_depth \<or> url \<in> visited st")
    case True
    then show ?thesis by (auto simp: grows_refl)
  next
    case False
    define st1 where "st1 = emit [VisitedAdd url, GetPage url] (st\<lparr>visited := insert url (visited st)\<rparr>)"
    have g1: "grows st st1"
      unfolding st1_def using False by (intro grows_insert) simp
    show ?thesis
    proof (cases "get_page E url")
      case None
      have "grows st1 (emit [LogError url] st1)"
        by (rule grows_emit) simp_all
      with g1 have "grows st (emit [LogError url] st1)"
        by (rule grows_trans)
      then show ?thesis
        using False None by (simp add: st1_def)
    next
      case (Some soup)
      define save_path where "save_path = page_save_path (save_dir C) (urlparse E url)"
      define st2 where "st2 = emit [MakeDirs (dirname save_path)] st1"
      define result where "result = for_tags E C url current_depth save_path tags (soup, st2)"
      have g2: "grows st1 st2"
        unfolding st2_def by (rule grows_emit) simp_all
      have "grows (snd (soup, st2)) (snd result)"
        unfolding result_def using False Some
        by (intro "1.IH" [where x = st1]) (simp_all add: st1_def st2_def save_path_def)
      then have g3: "grows st2 (snd result)"
        by simp
      have g4: "grows (snd result)
          (emit [WriteFile (sanitize_filename save_path) (fst result),
                 LogInfo (sanitize_filename save_path), Sleep] (snd result))"
        by (rule grows_emit) simp_all
      have "grows st
          (emit [WriteFile (sanitize_filename save_path) (fst result),
                 LogInfo (sanitize_filename save_path), Sleep] (snd result))"
        using g1 g2 g3 g4 by (blast intro: grows_trans)
      then show ?thesis
        using False Some by (simp add: st1_def st2_def save_path_def result_def Let_def)
    qed
  qed
next
  case (2 E C url current_depth save_path acc)
  then show ?case by (simp add: grows_refl)
next
  case (3 E C url current_depth save_path tag attr rest soup st)
  then show ?case
    by (auto intro: grows_trans)
next
  case (4 E C url current_depth save_path tag attr acc)
  then show ?case by (simp add: grows_refl)
next
  case (5 E C url current_depth save_path tag attr i rest soup st)
  define body where "body =
    (case map_of (el_attrs (soup ! i)) attr of
       None \<Rightarrow> (soup, st)
     | Some src \<Rightarrow>
         if src = [] \<or> nofollow_in (el_rel (soup ! i)) then (soup, st)
         else
           let resource_url = urljoin E url src;
               resource_parsed_url = urlparse E resource_url;
               resource_ext = snd (splitext (url_path resource_parsed_url))
           in if include_types C \<noteq> [] \<and> lower resource_ext \<notin> set (include_types C)
              then (soup, st)
              else if lower resource_ext \<in> set RESOURCE_TYPES \<or> tag = ''a'' then
                let resource_path = resource_save_path (save_dir C) (url_path resource_parsed_url);
                    st1 = emit [MakeDirs (dirname resource_path)] st
                in if is_valid_url E resource_url \<and> resource_url \<notin> visited st1 then
                     if lower resource_ext \<in> set RESOURCE_TYPES then
                       (soup[i := set_attr attr
                               (relative_link (getcwd E) resource_path save_path) (soup ! i)],
                        emit [QueuePut resource_url resource_path] st1)
                     else if tag = ''a'' \<and> follow_redirects C then
                       (soup, parse_and_download E C resource_url (current_depth + 1) st1)
                     else (soup, st1)
                   else (soup, st1)
              else (soup, st))"
  have step: "grows st (snd body)"
  proof (cases "map_of (el_attrs (soup ! i)) attr")
    case None
    then show ?thesis by (simp add: body_def grows_refl)
  next
    case (Some src)
    define u where "u = urljoin E url src"
    define ext where "ext = snd (splitext (url_path (urlparse E u)))"
    define p where "p = resource_save_path (save_dir C) (url_path (urlparse E u))"
    define st1 where "st1 = emit [MakeDirs (dirname p)] st"
    have md: "grows st st1"
      unfolding st1_def by (rule grows_emit) simp_all
    have "grows st1 (emit [QueuePut u p] st1)"
      by (rule grows_emit) simp_all
    with md have qp: "grows st (emit [QueuePut u p] st1)"
      by (rule grows_trans)
    have rec: "grows st (parse_and_download E C u (current_depth + 1) st1)"
      if "src \<noteq> []" "\<not> nofollow_in (el_rel (soup ! i))"
        "\<not> (include_types C \<noteq> [] \<and> lower ext \<notin> set (include_types C))"
        "is_valid_url E u" "u \<notin> visited st1" "lower ext \<notin> set RESOURCE_TYPES"
        "tag = ''a''" "follow_redirects C"
    proof -
      have "grows st1 (parse_and_download E C u (current_depth + 1) st1)"
        using that
        by (intro "5.IH"(1) [OF Some, where xb = ext and xc = p])
          (simp_all add: u_def ext_def p_def st1_def)
      with md show ?thesis
        by (rule grows_trans)
    qed
    have "snd body =
      (if src = [] \<or> nofollow_in (el_rel (soup ! i)) then st
       else if include_types C \<noteq> [] \<and> lower ext \<notin> set (include_types C) then st
       else if lower ext \<in> set RESOURCE_TYPES \<or> tag = ''a'' then
         if is_valid_url E u \<and> u \<notin> visited st1 then
           if lower ext \<in> set RESOURCE_TYPES then emit [QueuePut u p] st1
           else if tag = ''a'' \<and> follow_redirects C
             then parse_and_download E C u (current_depth + 1) st1
           else st1
         else st1
       else st)"
      unfolding body_def Some
      by (simp add: Let_def u_def ext_def p_def st1_def del: parse_and_download.simps)
    then show ?thesis
      using md qp rec by (simp add: grows_refl del: parse_and_download.simps)
  qed
  have "grows (snd body) (snd (for_resources E C url current_depth save_path tag attr rest body))"
    using "5.IH"(2) by (simp add: body_def)
  with step have "grows st (snd (for_resources E C url current_depth save_path tag attr rest body))"
    by (rule grows_trans)
  then show ?case
    by (simp add: body_def)
qed

text \<open>
  C1, as amended. The visited set never loses a URL. In a run from the empty set, every
  insertion is followed at once by the fetch of the inserted URL and there is no other
  fetch; the inserted URLs are pairwise different, so a URL is inserted at most once and
  fetched at most once; and the visited set at the end holds exactly the inserted URLs.
\<close>

theorem pages_inserted_once:
  "visited st \<subseteq> visited (parse_and_download E C url d st) \<and>
   paired (trace (parse_and_download E C url d start)) \<and>
   fetched (trace (parse_and_download E C url d start)) =
     inserted (trace (parse_and_download E C url d start)) \<and>
   distinct (inserted (trace (parse_and_download E C url d start))) \<and>
   distinct (fetched (trace (parse_and_download E C url d start))) \<and>
   visited (parse_and_download E C url d start) =
     set (inserted (trace (parse_and_download E C url d start)))"
proof -
  have "grows st (parse_and_download E C url d st)"
    by (rule grows_all)
  then have mono: "visited st \<subseteq> visited (parse_and_download E C url d st)"
    by (auto simp: grows_def)
  have "grows start (parse_and_download E C url d start)"
    by (rule grows_all)
  then obtain es where es: "trace (parse_and_download E C url d start) = trace start @ es"
    "paired es" "distinct (inserted es)"
    "visited (parse_and_download E C url d start) = visited start \<union> set (inserted es)"
    by (auto simp: grows_def)
  have tr: "trace (parse_and_download E C url d start) = es"
    using es(1) by (simp add: start_def)
  have vs: "visited (parse_and_download E C url d start) = set (inserted es)"
    using es(4) by (simp add: start_def)
  have "fetched es = inserted es"
    using es(2) by (rule paired_fetched)
  with mono es(2,3) tr vs show ?thesis
    by (simp del: parse_and_download.simps)
qed

theorem pages_inserted_once_witness:
  "visited start \<subseteq> visited (parse_and_download site (cfg True) blog_url 0 start) \<and>
   paired (trace (parse_and_download site (cfg True) blog_url 0 start)) \<and>
   fetched (trace (parse_and_download site (cfg True) blog_url 0 start)) = [blog_url, about_url] \<and>
   inserted (trace (parse_and_download site (cfg True) blog_url 0 start)) = [blog_url, about_url] \<and>
   visited (parse_and_download site (cfg True) blog_url 0 start) = {blog_url, about_url}"
proof -
  have f: "fetched (trace (parse_and_download site (cfg True) blog_url 0 start)) = [blog_url, about_url]"
    by code_simp
  note t = pages_inserted_once [of start site "cfg True" blog_url 0]
  from t f have i: "inserted (trace (parse_and_download site (cfg True) blog_url 0 start)) = [blog_url, about_url]"
    by (simp del: parse_and_download.simps)
  from t have "visited (parse_and_download site (cfg True) blog_url 0 start) =
      set (inserted (trace (parse_and_download site (cfg True) blog_url 0 start)))"
    by (simp del: parse_and_download.simps)
  then have v: "visited (parse_and_download site (cfg True) blog_url 0 start) = {blog_url, about_url}"
    unfolding i by simp
  from t have "visited start \<subseteq> visited (parse_and_download site (cfg True) blog_url 0 start)"
    and "paired (trace (parse_and_download site (cfg True) blog_url 0 start))"
    by blast+
  with f i v show ?thesis
    by (simp del: parse_and_download.simps)
qed

section \<open>Properties of the pool\<close>

subsection \<open>Sums over the threads\<close>

lemma sum_list_map_update:
  fixes f :: "'a \<Rightarrow> 'b::comm_monoid_add"
  shows "i < length xs \<Longrightarrow> sum_list (map f (xs[i := v])) + f (xs ! i) = sum_list (map f xs) + f v"
proof (induction xs arbitrary: i)
  case Nil
  then show ?case by simp
next
  case (Cons x xs)
  show ?case
  proof (cases i)
    case 0
    then show ?thesis by (simp add: ac_simps)
  next
    case (Suc j)
    with Cons.prems have "j < length xs" by simp
    from Cons.IH [OF this] Suc show ?thesis
      by (simp add: ac_simps)
  qed
qed

lemma saving_update:
  "i < length ts \<Longrightarrow> saving (ts[i := t]) + in_flight (ts ! i) = saving ts + in_flight t"
  unfolding saving_def by (rule sum_list_map_update)

lemma saving_start: "i < length ts \<Longrightarrow> ts ! i = Waiting \<Longrightarrow> saving (ts[i := Saving u p]) = add_mset (u, p) (saving ts)"
  using saving_update [of i ts "Saving u p"] by simp

lemma saving_end:
  "i < length ts \<Longrightarrow> ts ! i = Saving u p \<Longrightarrow> in_flight t = {#} \<Longrightarrow>
   add_mset (u, p) (saving (ts[i := t])) = saving ts"
  using saving_update [of i ts t] by simp

lemma saving_same:
  "i < length ts \<Longrightarrow> ts ! i = Waiting \<Longrightarrow> in_flight t = {#} \<Longrightarrow> saving (ts[i := t]) = saving ts"
  using saving_update [of i ts t] by simp

lemma saving_member: "i < length ts \<Longrightarrow> ts ! i = Saving u p \<Longrightarrow> (u, p) \<in># saving ts"
  using saving_end [of i ts u p Waiting] by (metis in_flight.simps(2) union_single_eq_member)

lemma died_sum: "died e ts = sum_list (map (\<lambda>t. if t = Died e then 1 else 0) ts)"
  unfolding died_def by (induction ts) auto

lemma died_update:
  "i < length ts \<Longrightarrow>
   died e (ts[i := t]) + (if ts ! i = Died e then 1 else 0) = died e ts + (if t = Died e then 1 else 0)"
  using sum_list_map_update [of i ts "\<lambda>t. if t = Died e then (1::nat) else 0" t]
  by (simp add: died_sum)

lemma sum_list_nth_cong:
  fixes f :: "'a \<Rightarrow> nat" and g :: "'b \<Rightarrow> nat"
  assumes "length xs = length ys" "\<forall>i < length xs. f (xs ! i) = g (ys ! i)"
  shows "sum_list (map f xs) = sum_list (map g ys)"
  using assms
proof (induction xs ys rule: list_induct2)
  case Nil
  then show ?case by simp
next
  case (Cons x xs y ys)
  from Cons.prems have "f x = g y"
    by (metis length_greater_0_conv list.distinct(1) nth_Cons_0)
  moreover from Cons.prems have "\<forall>i < length xs. f (xs ! i) = g (ys ! i)"
    by (metis Suc_less_eq length_Cons nth_Cons_Suc)
  ultimately show ?case
    using Cons.IH by simp
qed

lemma q_tasks_append: "q_tasks (xs @ ys) = q_tasks xs @ q_tasks ys"
  by (induction xs rule: q_tasks.induct) auto

lemma sentinels_append: "sentinels (xs @ ys) = sentinels xs + sentinels ys"
  by (simp add: sentinels_def)

lemma save_file_raises: "save_file http max_size u p d = (Inl e, d') \<Longrightarrow> e = ValueError"
  by (auto simp: save_file_def Let_def split: response.splits content_length.splits if_splits)

lemma saving_replicate: "saving (replicate n Waiting) = {#}"
  by (induction n) (simp_all add: saving_def)

lemma pool_inv_init: "pool_inv T tasks (pool_init T tasks d)"
  by (simp add: pool_inv_def pool_init_def saving_replicate sentinels_def died_def)

subsection \<open>The invariant\<close>

lemma pool_step_inv:
  assumes "pool_step http max_size T s s'" and "pool_inv T tasks s"
  shows "pool_inv T tasks s'"
  using assms
proof (induction rule: pool_step.induct)
  case (put s u p ts)
  then show ?case
    by (simp add: pool_inv_def q_tasks_append sentinels_append sentinels_def)
next
  case (crawled s)
  then show ?case by (simp add: pool_inv_def)
next
  case (joined s)
  then show ?case by (simp add: pool_inv_def)
next
  case (stop s k)
  then show ?case
    by (auto simp: pool_inv_def q_tasks_append sentinels_append sentinels_def)
next
  case (stopped s)
  then show ?case by (simp add: pool_inv_def)
next
  case (threads_joined s)
  then show ?case by (simp add: pool_inv_def)
next
  case (get_task i s u p q)
  then have i: "i < length (threads s)" and w: "threads s ! i = Waiting"
    and q: "queue s = Task (Some u) p # q" and inv: "pool_inv T tasks s"
    by simp_all
  from inv q have ns: "\<not> stopping (main s)"
    by (auto simp: pool_inv_def)
  from inv i w have nt: "Sentinel \<notin> set (taken s ! i)"
    by (auto simp: pool_inv_def)
  have d: "died e ((threads s)[i := Saving u p]) = died e (threads s)" for e
    using died_update [OF i, of e "Saving u p"] w by simp
  have l: "Left \<notin> set ((threads s)[i := Saving u p])"
    using inv by (auto simp: pool_inv_def dest: set_update_subset_insert [THEN subsetD])
  show ?case
    using inv i w q ns nt d l
    unfolding pool_inv_def take_item_def
    by (auto simp: saving_start sentinels_def nth_list_update)
next
  case (get_break i s p q)
  then show ?case by (auto simp: pool_inv_def)
next
  case (get_sentinel i s q)
  then have i: "i < length (threads s)" and w: "threads s ! i = Waiting"
    and q: "queue s = Sentinel # q" and inv: "pool_inv T tasks s"
    by simp_all
  from inv i w have nt: "Sentinel \<notin> set (taken s ! i)"
    by (auto simp: pool_inv_def)
  then have f: "filter (\<lambda>x. x = Sentinel) (taken s ! i) = []"
    by (auto simp: filter_empty_conv)
  have d: "died TypeError ((threads s)[i := Died TypeError]) = Suc (died TypeError (threads s))"
    "died ValueError ((threads s)[i := Died TypeError]) = died ValueError (threads s)"
    using died_update [OF i, of TypeError "Died TypeError"]
      died_update [OF i, of ValueError "Died TypeError"] w by simp_all
  have l: "Left \<notin> set ((threads s)[i := Died TypeError])"
    using inv by (auto simp: pool_inv_def dest: set_update_subset_insert [THEN subsetD])
  have a: "\<forall>t \<in> set (threads s). \<not> alive t \<Longrightarrow> \<forall>t \<in> set ((threads s)[i := Died TypeError]). \<not> alive t"
    by (auto dest: set_update_subset_insert [THEN subsetD])
  show ?case
    using inv i w q nt f d l a
    unfolding pool_inv_def take_item_def
    by (auto simp: saving_same sentinels_def nth_list_update)
next
  case (saved i s u p ok d)
  then have i: "i < length (threads s)" and w: "threads s ! i = Saving u p"
    and inv: "pool_inv T tasks s" and pos: "unfinished_tasks s > 0"
    by simp_all
  have m: "(u, p) \<in># saving (threads s)"
    using i w by (rule saving_member)
  with inv have ns: "\<not> stopping (main s)"
    by (auto simp: pool_inv_def)
  then have nd: "main s \<noteq> Done"
    by auto
  have sv: "add_mset (u, p) (saving ((threads s)[i := Waiting])) = saving (threads s)"
    using i w by (rule saving_end) simp
  then have sz: "Suc (size (saving ((threads s)[i := Waiting]))) = size (saving (threads s))"
    by (metis size_add_mset)
  have dd: "died e ((threads s)[i := Waiting]) = died e (threads s)" for e
    using died_update [OF i, of e Waiting] w by simp
  have l: "Left \<notin> set ((threads s)[i := Waiting])"
    using inv by (auto simp: pool_inv_def dest: set_update_subset_insert [THEN subsetD])
  have tk: "\<forall>j < T. (if (threads s)[i := Waiting] ! j = Died TypeError
        then filter (\<lambda>x. x = Sentinel) (taken s ! j) = [Sentinel] \<and> last (taken s ! j) = Sentinel
        else Sentinel \<notin> set (taken s ! j))"
    using inv i w by (auto simp: pool_inv_def nth_list_update)
  show ?case
    using inv i ns nd sv [symmetric] sz [symmetric] dd l tk pos
    unfolding pool_inv_def
    by simp
next
  case (save_raised i s u p e d)
  then have i: "i < length (threads s)" and w: "threads s ! i = Saving u p"
    and inv: "pool_inv T tasks s" and e: "e = ValueError"
    by (simp_all add: save_file_raises)
  have m: "(u, p) \<in># saving (threads s)"
    using i w by (rule saving_member)
  with inv have ns: "\<not> stopping (main s)"
    by (auto simp: pool_inv_def)
  then have nd: "main s \<noteq> Done"
    by auto
  have sv: "add_mset (u, p) (saving ((threads s)[i := Died ValueError])) = saving (threads s)"
    using i w by (rule saving_end) simp
  then have sz: "Suc (size (saving ((threads s)[i := Died ValueError]))) = size (saving (threads s))"
    by (metis size_add_mset)
  have dd: "died TypeError ((threads s)[i := Died ValueError]) = died TypeError (threads s)"
    "died ValueError ((threads s)[i := Died ValueError]) = Suc (died ValueError (threads s))"
    using died_update [OF i, of TypeError "Died ValueError"]
      died_update [OF i, of ValueError "Died ValueError"] w by simp_all
  have l: "Left \<notin> set ((threads s)[i := Died ValueError])"
    using inv by (auto simp: pool_inv_def dest: set_update_subset_insert [THEN subsetD])
  have tk: "\<forall>j < T. (if (threads s)[i := Died ValueError] ! j = Died TypeError
        then filter (\<lambda>x. x = Sentinel) (taken s ! j) = [Sentinel] \<and> last (taken s ! j) = Sentinel
        else Sentinel \<notin> set (taken s ! j))"
    using inv i w by (auto simp: pool_inv_def nth_list_update)
  show ?case
    using inv i ns nd sv [symmetric] sz [symmetric] dd l tk
    unfolding pool_inv_def e
    by simp
next
  case (task_done_raised i s u p ok d)
  then have i: "i < length (threads s)" and w: "threads s ! i = Saving u p"
    and inv: "pool_inv T tasks s" and z: "unfinished_tasks s = 0"
    by simp_all
  have "(u, p) \<in># saving (threads s)"
    using i w by (rule saving_member)
  then have "size (saving (threads s)) \<noteq> 0"
    by auto
  with inv z show ?case
    by (simp add: pool_inv_def)
qed

lemma reachable_inv:
  assumes "reachable http max_size T tasks d0 s"
  shows "pool_inv T tasks s"
  using assms
  by (induction rule: reachable.induct) (auto intro: pool_inv_init pool_step_inv)

subsection \<open>Every run ends\<close>

lemma pool_step_decreases:
  assumes "pool_step http max_size T s s'"
  shows "pool_measure T s' < pool_measure T s"
  using assms
proof (induction rule: pool_step.induct)
  case (get_task i s u p q)
  then show ?case
    by (simp add: pool_measure_def take_item_def saving_start)
next
  case (get_break i s p q)
  then show ?case
    by (simp add: pool_measure_def take_item_def saving_same)
next
  case (get_sentinel i s q)
  then show ?case
    by (simp add: pool_measure_def take_item_def saving_same)
next
  case (saved i s u p ok d)
  then have "add_mset (u, p) (saving ((threads s)[i := Waiting])) = saving (threads s)"
    by (intro saving_end) simp_all
  then have "Suc (size (saving ((threads s)[i := Waiting]))) = size (saving (threads s))"
    by (metis size_add_mset)
  then show ?case
    by (simp add: pool_measure_def)
next
  case (save_raised i s u p e d)
  then have "add_mset (u, p) (saving ((threads s)[i := Died e])) = saving (threads s)"
    by (intro saving_end) simp_all
  then have "Suc (size (saving ((threads s)[i := Died e]))) = size (saving (threads s))"
    by (metis size_add_mset)
  then show ?case
    by (simp add: pool_measure_def)
next
  case (task_done_raised i s u p ok d)
  then have "add_mset (u, p) (saving ((threads s)[i := Died ValueError])) = saving (threads s)"
    by (intro saving_end) simp_all
  then have "Suc (size (saving ((threads s)[i := Died ValueError]))) = size (saving (threads s))"
    by (metis size_add_mset)
  then show ?case
    by (simp add: pool_measure_def)
qed (simp_all add: pool_measure_def)

lemma saving_empty_iff: "saving ts = {#} \<longleftrightarrow> (\<forall>t \<in> set ts. in_flight t = {#})"
  by (induction ts) (auto simp: saving_def)

lemma died_zero_iff: "died e ts = 0 \<longleftrightarrow> Died e \<notin> set ts"
  by (auto simp: died_def filter_empty_conv)

lemma died_less: "t \<in> set ts \<Longrightarrow> t \<noteq> Died e \<Longrightarrow> died e ts < length ts"
  unfolding died_def by (rule length_filter_less) simp_all

lemma in_flight_cases: "in_flight t = {#} \<or> (\<exists>u p. t = Saving u p)"
  by (cases t) auto

lemma q_tasks_empty:
  assumes "q_tasks q = []" "\<forall>p. Task None p \<notin> set q"
  shows "\<forall>x \<in> set q. x = Sentinel"
  using assms by (induction q rule: q_tasks.induct) auto

lemma sentinels_all: "\<forall>x \<in> set q. x = Sentinel \<Longrightarrow> sentinels q = length q"
  by (simp add: sentinels_def)

lemma pool_progress:
  assumes r: "reachable http max_size T tasks d0 s"
    and nd: "main s \<noteq> Done" and T: "0 < T" and nl: "lost s = []"
  shows "\<exists>s'. pool_step http max_size T s s'"
proof -
  have inv: "pool_inv T tasks s"
    using r by (rule reachable_inv)
  then have len: "length (threads s) = T"
    by (simp add: pool_inv_def)
  have thread_moves: "\<exists>s'. pool_step http max_size T s s'"
    if "i < length (threads s)" "threads s ! i = Saving u p" for i u p
  proof (cases "save_file http max_size u p (pool_disk s)")
    case (Pair r d)
    show ?thesis
    proof (cases r)
      case (Inl e)
      with Pair that show ?thesis
        by (blast intro: pool_step.save_raised)
    next
      case (Inr ok)
      with Pair that show ?thesis
        by (cases "unfinished_tasks s = 0")
          (blast intro: pool_step.task_done_raised, blast intro: pool_step.saved)
    qed
  qed
  have takes: "\<exists>s'. pool_step http max_size T s s'"
    if "i < length (threads s)" "threads s ! i = Waiting" "queue s \<noteq> []" for i
  proof (cases "queue s")
    case Nil
    with that show ?thesis by simp
  next
    case (Cons x q)
    show ?thesis
    proof (cases x)
      case (Task uo p)
      with Cons that show ?thesis
        by (cases uo) (blast intro: pool_step.get_break, blast intro: pool_step.get_task)
    next
      case Sentinel
      with Cons that show ?thesis
        by (blast intro: pool_step.get_sentinel)
    qed
  qed
  show ?thesis
  proof (cases "main s")
    case (Crawling ts)
    then show ?thesis
      by (cases ts) (auto intro: pool_step.crawled pool_step.put)
  next
    case Joining
    show ?thesis
    proof (cases "unfinished_tasks s = 0")
      case True
      with Joining show ?thesis by (blast intro: pool_step.joined)
    next
      case False
      show ?thesis
      proof (cases "\<exists>i u p. i < length (threads s) \<and> threads s ! i = Saving u p")
        case True
        then show ?thesis using thread_moves by blast
      next
        case False
        then have "\<forall>t \<in> set (threads s). in_flight t = {#}"
          using in_flight_cases by (fastforce simp: in_set_conv_nth)
        then have sv: "saving (threads s) = {#}"
          by (simp add: saving_empty_iff)
        from inv Joining nl sv \<open>unfinished_tasks s \<noteq> 0\<close> have "q_tasks (queue s) \<noteq> []"
          by (auto simp: pool_inv_def)
        then have q: "queue s \<noteq> []"
          by auto
        from inv Joining nl have "died TypeError (threads s) = 0" "died ValueError (threads s) = 0"
          by (auto simp: pool_inv_def)
        then have "Died TypeError \<notin> set (threads s)" "Died ValueError \<notin> set (threads s)"
          by (simp_all add: died_zero_iff)
        moreover from inv have "Left \<notin> set (threads s)"
          by (simp add: pool_inv_def)
        moreover from len T have "threads s ! 0 \<in> set (threads s)"
          by simp
        ultimately have "threads s ! 0 \<noteq> Left" "threads s ! 0 \<noteq> Died e" for e
          by (cases e; metis)+
        moreover have "threads s ! 0 \<noteq> Saving u p" for u p
          using False len T by blast
        ultimately have "threads s ! 0 = Waiting"
          by (cases "threads s ! 0") auto
        with q len T show ?thesis
          using takes [of 0] by simp
      qed
    qed
  next
    case (Stopping k)
    then show ?thesis
      by (cases k) (auto intro: pool_step.stopped pool_step.stop)
  next
    case JoinThreads
    show ?thesis
    proof (cases "\<forall>t \<in> set (threads s). \<not> alive t")
      case True
      with JoinThreads show ?thesis by (blast intro: pool_step.threads_joined)
    next
      case False
      then obtain i where i: "i < length (threads s)" "alive (threads s ! i)"
        by (auto simp: in_set_conv_nth)
      from inv JoinThreads have sv: "saving (threads s) = {#}" and qt: "q_tasks (queue s) = []"
        and cnt: "sentinels (queue s) + died TypeError (threads s) = T"
        and wf: "\<forall>p. Task None p \<notin> set (queue s)"
        by (auto simp: pool_inv_def)
      from sv i have "in_flight (threads s ! i) = {#}"
        by (simp add: saving_empty_iff)
      with i have w: "threads s ! i = Waiting"
        by (cases "threads s ! i") auto
      have "died TypeError (threads s) < length (threads s)"
        using i w nth_mem [of i "threads s"] by (intro died_less [of "threads s ! i"]) simp_all
      then have "sentinels (queue s) \<noteq> 0"
        using cnt len by linarith
      then have "queue s \<noteq> []"
        by (auto simp: sentinels_def)
      with i w show ?thesis
        using takes by blast
    qed
  next
    case Done
    with nd show ?thesis by simp
  qed
qed

subsection \<open>Shutdown\<close>

text \<open>
  The order of events and the counts. In every state of a run with \<open>T\<close> threads in which
  the traversal puts \<open>tasks\<close>:
  \<^item> once \<^verbatim>\<open>main\<close> has passed \<^verbatim>\<open>download_queue.join()\<close>, \<^verbatim>\<open>save_file\<close> has returned for
    every task, as often as the task was put, and no task is left in the queue;
  \<^item> \<^verbatim>\<open>save_file\<close> is only ever called for tasks that were put, and no thread leaves its
    loop through \<^verbatim>\<open>break\<close>;
  \<^item> the \<^verbatim>\<open>None\<close> entries in the queue and those taken by the threads are as many as
    \<^verbatim>\<open>main\<close> has put: none before the join, \<open>T\<close> in the end;
  \<^item> a thread takes at most one \<^verbatim>\<open>None\<close>; it is the last entry it takes, and the thread
    has left its loop, through the \<^verbatim>\<open>TypeError\<close> of unpacking it;
  \<^item> when \<^verbatim>\<open>main\<close> is done, the queue is empty and each of the \<open>T\<close> threads has taken
    exactly one \<^verbatim>\<open>None\<close> and has left its loop;
  \<^item> unless \<^verbatim>\<open>main\<close> is done, some step is possible, provided there is a thread at all
    and no thread was killed by an exception inside \<^verbatim>\<open>save_file\<close>; and every step
    makes \<open>pool_measure\<close> smaller, so no run goes on for ever.
\<close>

theorem pool_shutdown:
  assumes "reachable http max_size T tasks d0 s"
  shows
    "(stopping (main s) \<longrightarrow> mset (map fst (finished s)) = mset tasks \<and> q_tasks (queue s) = []) \<and>
     mset (map fst (finished s)) + saving (threads s) \<subseteq># mset tasks \<and>
     Left \<notin> set (threads s) \<and>
     sentinels (queue s) + sum_list (map sentinels (taken s)) = sent T (main s) \<and>
     (\<forall>i < T. sentinels (taken s ! i) \<le> 1 \<and>
        (Sentinel \<in> set (taken s ! i) \<longrightarrow>
           threads s ! i = Died TypeError \<and> last (taken s ! i) = Sentinel)) \<and>
     (main s = Done \<longrightarrow>
        queue s = [] \<and> length (threads s) = T \<and>
        (\<forall>i < T. threads s ! i = Died TypeError \<and> sentinels (taken s ! i) = 1)) \<and>
     (main s \<noteq> Done \<and> 0 < T \<and> lost s = [] \<longrightarrow> (\<exists>s'. pool_step http max_size T s s')) \<and>
     (\<forall>s'. pool_step http max_size T s s' \<longrightarrow> pool_measure T s' < pool_measure T s)"
proof -
  have inv: "pool_inv T tasks s"
    using assms by (rule reachable_inv)
  then have len: "length (threads s) = T" "length (taken s) = T"
    by (simp_all add: pool_inv_def)
  have each: "sentinels (taken s ! i) = (if threads s ! i = Died TypeError then 1 else 0) \<and>
      (Sentinel \<in> set (taken s ! i) \<longrightarrow>
         threads s ! i = Died TypeError \<and> last (taken s ! i) = Sentinel)"
    if "i < T" for i
  proof (cases "threads s ! i = Died TypeError")
    case True
    with inv that have "filter (\<lambda>x. x = Sentinel) (taken s ! i) = [Sentinel]"
      "last (taken s ! i) = Sentinel"
      by (auto simp: pool_inv_def)
    with True show ?thesis
      by (simp add: sentinels_def)
  next
    case False
    with inv that have "Sentinel \<notin> set (taken s ! i)"
      by (auto simp: pool_inv_def)
    with False show ?thesis
      by (auto simp: sentinels_def filter_empty_conv)
  qed
  have a: "mset (map fst (finished s)) = mset tasks \<and> q_tasks (queue s) = []"
    if "stopping (main s)"
    using inv that by (cases "main s") (auto simp: pool_inv_def)
  have b: "mset (map fst (finished s)) + saving (threads s) \<subseteq># mset tasks"
  proof -
    from inv have "mset tasks =
        (mset (map fst (finished s)) + saving (threads s)) +
        (mset (to_put (main s)) + mset (q_tasks (queue s)) + mset (lost s))"
      by (simp add: pool_inv_def ac_simps)
    then show ?thesis
      by (metis mset_subset_eq_add_left)
  qed
  from inv have b': "Left \<notin> set (threads s)"
    by (simp add: pool_inv_def)
  have "sum_list (map sentinels (taken s)) =
      sum_list (map (\<lambda>t. if t = Died TypeError then 1 else 0) (threads s))"
    using len each by (intro sum_list_nth_cong) simp_all
  then have "sum_list (map sentinels (taken s)) = died TypeError (threads s)"
    by (simp add: died_sum)
  with inv have c: "sentinels (queue s) + sum_list (map sentinels (taken s)) = sent T (main s)"
    by (simp add: pool_inv_def)
  have d: "\<forall>i < T. sentinels (taken s ! i) \<le> 1 \<and>
        (Sentinel \<in> set (taken s ! i) \<longrightarrow>
           threads s ! i = Died TypeError \<and> last (taken s ! i) = Sentinel)"
    using each by simp
  have e: "queue s = [] \<and> length (threads s) = T \<and>
        (\<forall>i < T. threads s ! i = Died TypeError \<and> sentinels (taken s ! i) = 1)"
    if dn: "main s = Done"
  proof -
    from inv dn have dead: "\<forall>t \<in> set (threads s). \<not> alive t"
      and nl: "Left \<notin> set (threads s)" and lost: "died ValueError (threads s) = 0"
      and cnt: "sentinels (queue s) + died TypeError (threads s) = T"
      and qt: "q_tasks (queue s) = []" and wf: "\<forall>p. Task None p \<notin> set (queue s)"
      by (auto simp: pool_inv_def)
    have all: "threads s ! i = Died TypeError" if "i < T" for i
    proof -
      from that len have m: "threads s ! i \<in> set (threads s)"
        by simp
      from lost have nv: "Died ValueError \<notin> set (threads s)"
        by (simp add: died_zero_iff)
      show ?thesis
      proof (cases "threads s ! i")
        case (Died e)
        with m nv show ?thesis
          by (cases e) auto
      qed (use m dead nl in force)+
    qed
    then have "\<forall>t \<in> set (threads s). t = Died TypeError"
      using len by (auto simp: in_set_conv_nth)
    then have "died TypeError (threads s) = T"
      using len by (simp add: died_def)
    with cnt have "sentinels (queue s) = 0"
      by simp
    moreover have "sentinels (queue s) = length (queue s)"
      using qt wf by (intro sentinels_all q_tasks_empty)
    ultimately have "queue s = []"
      by simp
    with len all each show ?thesis
      by simp
  qed
  have f: "\<exists>s'. pool_step http max_size T s s'"
    if "main s \<noteq> Done" "0 < T" "lost s = []"
    using assms that by (rule pool_progress)
  have g: "\<forall>s'. pool_step http max_size T s s' \<longrightarrow> pool_measure T s' < pool_measure T s"
    by (blast intro: pool_step_decreases)
  from a b b' c d e f g show ?thesis
    by blast
qed

lemma run_end_reachable: "reachable site_http 50 2 [png_task] empty_disk run_end"
proof -
  let ?R = "reachable site_http 50 2 [png_task] empty_disk"
  let ?S = "pool_step site_http 50 2"
  let ?t = "Task (Some png_url) ''site/a.png''"
  define s0 where "s0 =
    \<lparr>queue = [], unfinished_tasks = 0, threads = [Waiting, Waiting], taken = [[], []],
     finished = [], lost = [], pool_disk = empty_disk, main = Crawling [png_task]\<rparr>"
  have init: "pool_init 2 [png_task] empty_disk = s0"
    by (simp add: s0_def pool_init_def numeral_2_eq_2)
  define s1 where "s1 = s0\<lparr>queue := [?t], unfinished_tasks := 1, main := Crawling []\<rparr>"
  define s2 where "s2 = s1\<lparr>main := Joining\<rparr>"
  define s3 where "s3 = s2\<lparr>queue := [], threads := [Saving png_url ''site/a.png'', Waiting],
    taken := [[?t], []]\<rparr>"
  define s4 where "s4 = s3\<lparr>threads := [Waiting, Waiting], pool_disk := png_saved,
    finished := [(png_task, True)], unfinished_tasks := 0\<rparr>"
  define s5 where "s5 = s4\<lparr>main := Stopping 2\<rparr>"
  define s6 where "s6 = s5\<lparr>queue := [Sentinel], unfinished_tasks := 1, main := Stopping 1\<rparr>"
  define s7 where "s7 = s6\<lparr>queue := [Sentinel, Sentinel], unfinished_tasks := 2, main := Stopping 0\<rparr>"
  define s8 where "s8 = s7\<lparr>main := JoinThreads\<rparr>"
  define s9 where "s9 = s8\<lparr>queue := [Sentinel], threads := [Died TypeError, Waiting],
    taken := [[?t, Sentinel], []]\<rparr>"
  define s10 where "s10 = s9\<lparr>queue := [], threads := [Died TypeError, Died TypeError],
    taken := [[?t, Sentinel], [Sentinel]]\<rparr>"
  define s11 where "s11 = s10\<lparr>main := Done\<rparr>"
  note defs = s0_def s1_def s2_def s3_def s4_def s5_def s6_def s7_def s8_def s9_def s10_def s11_def
    pool_init_def png_task_def take_item_def
  have save: "save_file site_http 50 png_url ''site/a.png'' empty_disk = (Inr True, png_saved)"
    by (simp add: save_file_def site_http_def png_url_def is_error_status_def logged_def
        empty_disk_def png_saved_def sanitize_filename_def invalid_chars_def backslash_def
        dquote_def Let_def)
  have st1: "?S s0 s1"
    using pool_step.put [where s = s0 and u = png_url and p = "''site/a.png''" and ts = "[]"
        and http = site_http and max_size = 50 and T = 2]
    by (simp add: defs)
  have st2: "?S s1 s2"
    using pool_step.crawled [where s = s1 and http = site_http and max_size = 50 and T = 2]
    by (simp add: defs)
  have st3: "?S s2 s3"
    using pool_step.get_task [where s = s2 and i = 0 and u = png_url and p = "''site/a.png''"
        and q = "[]" and http = site_http and max_size = 50 and T = 2]
    by (simp add: defs)
  have st4: "?S s3 s4"
    using pool_step.saved [where s = s3 and i = 0 and u = png_url and p = "''site/a.png''"
        and ok = True and d = png_saved and http = site_http and max_size = 50 and T = 2] save
    by (simp add: defs)
  have st5: "?S s4 s5"
    using pool_step.joined [where s = s4 and http = site_http and max_size = 50 and T = 2]
    by (simp add: defs)
  have st6: "?S s5 s6"
    using pool_step.stop [where s = s5 and k = 1 and http = site_http and max_size = 50 and T = 2]
    by (simp add: defs)
  have st7: "?S s6 s7"
    using pool_step.stop [where s = s6 and k = 0 and http = site_http and max_size = 50 and T = 2]
    by (simp add: defs numeral_2_eq_2)
  have st8: "?S s7 s8"
    using pool_step.stopped [where s = s7 and http = site_http and max_size = 50 and T = 2]
    by (simp add: defs)
  have st9: "?S s8 s9"
    using pool_step.get_sentinel [where s = s8 and i = 0 and q = "[Sentinel]"
        and http = site_http and max_size = 50 and T = 2]
    by (simp add: defs)
  have st10: "?S s9 s10"
    using pool_step.get_sentinel [where s = s9 and i = 1 and q = "[]"
        and http = site_http and max_size = 50 and T = 2]
    by (simp add: defs)
  have st11: "?S s10 s11"
    using pool_step.threads_joined [where s = s10 and http = site_http and max_size = 50 and T = 2]
    by (simp add: defs)
  have r0: "?R s0"
    using reachable.init [of site_http 50 2 "[png_task]" empty_disk] by (simp add: init)
  have r1: "?R s1"
    using r0 st1 by (rule reachable.step)
  have r2: "?R s2"
    using r1 st2 by (rule reachable.step)
  have r3: "?R s3"
    using r2 st3 by (rule reachable.step)
  have r4: "?R s4"
    using r3 st4 by (rule reachable.step)
  have r5: "?R s5"
    using r4 st5 by (rule reachable.step)
  have r6: "?R s6"
    using r5 st6 by (rule reachable.step)
  have r7: "?R s7"
    using r6 st7 by (rule reachable.step)
  have r8: "?R s8"
    using r7 st8 by (rule reachable.step)
  have r9: "?R s9"
    using r8 st9 by (rule reachable.step)
  have r10: "?R s10"
    using r9 st10 by (rule reachable.step)
  have r11: "?R s11"
    using r10 st11 by (rule reachable.step)
  have "s11 = run_end"
    by (simp add: defs run_end_def numeral_2_eq_2)
  with r11 show ?thesis
    by simp
qed

text \<open>
  C2 at a run with two threads and the one task for the image. The order of events and the
  counts are as the claim has them: \<^verbatim>\<open>save_file\<close> has returned for the task before any
  \<^verbatim>\<open>None\<close> is put, two are put, each thread takes one and takes nothing after it. But a
  thread does not leave its loop by finding the \<^verbatim>\<open>None\<close>: \<^verbatim>\<open>download_worker\<close> raises
  \<^verbatim>\<open>TypeError\<close> when it unpacks the entry, before the test \<^verbatim>\<open>url is None\<close>, and both
  threads end with that exception uncaught. No thread has left through \<^verbatim>\<open>break\<close>.
\<close>

theorem sentinel_kills_worker:
  "download_worker site_http 50 [Sentinel] (0, empty_disk) = (Uncaught TypeError, 0, empty_disk) \<and>
   download_worker site_http 50 [Task (Some png_url) ''site/a.png'', Sentinel] (0, empty_disk) =
     (Uncaught TypeError, 1, png_saved) \<and>
   reachable site_http 50 2 [png_task] empty_disk run_end \<and>
   main run_end = Done \<and> queue run_end = [] \<and>
   mset (map fst (finished run_end)) = mset [png_task] \<and>
   map sentinels (taken run_end) = [1, 1] \<and>
   threads run_end = [Died TypeError, Died TypeError] \<and>
   Left \<notin> set (threads run_end)"
proof -
  have save: "save_file site_http 50 png_url ''site/a.png'' empty_disk = (Inr True, png_saved)"
    by (simp add: save_file_def site_http_def png_url_def is_error_status_def logged_def
        empty_disk_def png_saved_def sanitize_filename_def invalid_chars_def backslash_def
        dquote_def Let_def)
  have "map sentinels (taken run_end) = [1, 1]"
    by (simp add: run_end_def sentinels_def)
  then show ?thesis
    using pool_shutdown [OF run_end_reachable] run_end_reachable save
    by (simp add: run_end_def)
qed

end
